theory Spec2Isabelle
  imports Main "HOL-Library.AList" "HOL-Library.Product_Lexorder"
begin

section \<open>The section tree of the platform\<close>

text \<open>
  The server keeps the topic sections in one SQL table and rebuilds the tree from the
  fetched rows on every read (\<open>buildSectionsTree\<close>); the teacher view flattens the
  received tree into the entries of a selection control (\<open>flattenSections\<close>).
  Identifiers and order indices are JavaScript numbers holding integers; they are
  modelled as \<open>int\<close>. The column \<open>is_active\<close> is only ever written as 0 or 1 and
  is modelled as \<open>bool\<close>.
\<close>

subsection \<open>Data\<close>

text \<open>A row of the table \<open>sections\<close>, as \<open>SELECT\<close> returns it.\<close>

record row =
  row_id :: int
  row_name :: string
  parent_id :: "int option"
  order_index :: int
  is_active :: bool
  created_at :: string
  updated_at :: string

text \<open>
  The object that \<open>buildSectionsTree\<close> allocates for a row. Its scalar fields are never
  written again; its \<open>children\<close> array is mutated in place and therefore lives in the
  store below, addressed by the identifier of the object (the index \<open>byId\<close> holds one
  object per identifier).
\<close>

record node =
  node_id :: int
  node_name :: string
  parentId :: "int option"
  orderIndex :: int
  isActive :: bool

text \<open>The two arrays of node references that the code writes: \<open>roots\<close> and the \<open>children\<close> of each object.\<close>

record state =
  roots :: "node list"
  children :: "int \<Rightarrow> node list"

datatype arr = RootsArr | ChildrenArr int

datatype error = TypeError

text \<open>The serialised tree (\<open>res.json\<close>), which is also what the client receives.\<close>

datatype tree = Tree (label: node) (kids: "tree list")

text \<open>An entry pushed by \<open>flattenSections\<close>.\<close>

record entry =
  entry_id :: int
  entry_name :: string
  entry_isActive :: bool

subsection \<open>buildSectionsTree\<close>

definition mkNode :: "row \<Rightarrow> node" where
  "mkNode r = \<lparr>node_id = row_id r, node_name = row_name r, parentId = parent_id r,
                orderIndex = order_index r, isActive = is_active r\<rparr>"

text \<open>
  \<open>rows.forEach((row) => byId.set(row.id, {...}))\<close>. A JavaScript \<open>Map\<close> iterates in
  insertion order, and setting an existing key replaces the value in place.
\<close>

definition indexRows :: "row list \<Rightarrow> (int \<times> node) list" where
  "indexRows rows = fold (\<lambda>r. AList.update (row_id r) (mkNode r)) rows []"

definition has :: "(int \<times> node) list \<Rightarrow> int \<Rightarrow> bool" where
  "has byId k = (k \<in> fst ` set byId)"

text \<open>
  One step of \<open>byId.forEach((node) => ...)\<close>: a node without a resolvable parent is pushed
  to \<open>roots\<close>, any other node to the \<open>children\<close> of \<open>byId.get(node.parentId)\<close>; reading
  \<open>children\<close> of \<open>undefined\<close> would throw.
\<close>

definition assignNode :: "(int \<times> node) list \<Rightarrow> node \<Rightarrow> state \<Rightarrow> error + state" where
  "assignNode byId nd st =
     (case parentId nd of
        None \<Rightarrow> Inr (st\<lparr>roots := roots st @ [nd]\<rparr>)
      | Some p \<Rightarrow>
          if \<not> has byId p then Inr (st\<lparr>roots := roots st @ [nd]\<rparr>)
          else (case map_of byId p of
                  None \<Rightarrow> Inl TypeError
                | Some parent \<Rightarrow>
                    Inr (st\<lparr>children := (children st)
                           (node_id parent := children st (node_id parent) @ [nd])\<rparr>)))"

fun assignAll :: "(int \<times> node) list \<Rightarrow> node list \<Rightarrow> state \<Rightarrow> error + state" where
  "assignAll byId [] st = Inr st"
| "assignAll byId (nd # nds) st =
     (case assignNode byId nd st of
        Inl e \<Rightarrow> Inl e
      | Inr st' \<Rightarrow> assignAll byId nds st')"

text \<open>The comparator \<open>(a, b) => a.orderIndex - b.orderIndex || a.id - b.id\<close>.\<close>

definition compareNodes :: "node \<Rightarrow> node \<Rightarrow> int" where
  "compareNodes a b =
     (if orderIndex a - orderIndex b \<noteq> 0 then orderIndex a - orderIndex b
      else node_id a - node_id b)"

text \<open>
  \<open>Array.prototype.sort(compare)\<close> is a stable sort that learns the order from the
  comparator alone: \<open>compare(x, y) <= 0\<close> keeps \<open>x\<close> before \<open>y\<close>. It is modelled as the
  stable insertion sort that decides every step by calling the comparator.
\<close>

fun insertBy :: "('a \<Rightarrow> 'a \<Rightarrow> int) \<Rightarrow> 'a \<Rightarrow> 'a list \<Rightarrow> 'a list" where
  "insertBy compare x [] = [x]"
| "insertBy compare x (y # ys) =
     (if compare x y \<le> 0 then x # y # ys else y # insertBy compare x ys)"

definition sortBy :: "('a \<Rightarrow> 'a \<Rightarrow> int) \<Rightarrow> 'a list \<Rightarrow> 'a list" where
  "sortBy compare xs = foldr (insertBy compare) xs []"

text \<open>\<open>nodes.sort((a, b) => a.orderIndex - b.orderIndex || a.id - b.id)\<close>.\<close>

definition sortArray :: "node list \<Rightarrow> node list" where
  "sortArray nodes = sortBy compareNodes nodes"

fun getArr :: "state \<Rightarrow> arr \<Rightarrow> node list" where
  "getArr st RootsArr = roots st"
| "getArr st (ChildrenArr k) = children st k"

fun setArr :: "state \<Rightarrow> arr \<Rightarrow> node list \<Rightarrow> state" where
  "setArr st RootsArr xs = st\<lparr>roots := xs\<rparr>"
| "setArr st (ChildrenArr k) xs = st\<lparr>children := (children st)(k := xs)\<rparr>"

text \<open>\<open>forEach\<close> with a callback that may fail to return.\<close>

fun forEach :: "('a \<Rightarrow> 's \<Rightarrow> 's option) \<Rightarrow> 'a list \<Rightarrow> 's \<Rightarrow> 's option" where
  "forEach g [] s = Some s"
| "forEach g (x # xs) s = (case g x s of None \<Rightarrow> None | Some s' \<Rightarrow> forEach g xs s')"

text \<open>
  \<open>sortNodes\<close> sorts the array in place and recurses into the \<open>children\<close> array of every
  element. The recursion follows object references, so it is bounded by fuel: one unit
  per level of nesting, \<open>None\<close> when the fuel runs out.
\<close>

fun sortNodes :: "nat \<Rightarrow> arr \<Rightarrow> state \<Rightarrow> state option" where
  "sortNodes 0 a st = None"
| "sortNodes (Suc fuel) a st =
     (let st1 = setArr st a (sortArray (getArr st a))
      in forEach (\<lambda>nd. sortNodes fuel (ChildrenArr (node_id nd))) (getArr st1 a) st1)"

definition emptyState :: state where
  "emptyState = \<lparr>roots = [], children = (\<lambda>_. [])\<rparr>"

text \<open>The function returns \<open>roots\<close>; the objects it refers to are in the returned store.\<close>

definition buildSectionsTree :: "nat \<Rightarrow> row list \<Rightarrow> (error + state) option" where
  "buildSectionsTree fuel rows =
     (let byId = indexRows rows in
      case assignAll byId (map snd byId) emptyState of
        Inl e \<Rightarrow> Some (Inl e)
      | Inr st \<Rightarrow> map_option Inr (sortNodes fuel RootsArr st))"

text \<open>
  Serialising the returned array follows the \<open>children\<close> references down from each root;
  one unit of fuel per level again.
\<close>

fun toTree :: "nat \<Rightarrow> state \<Rightarrow> node \<Rightarrow> tree option" where
  "toTree 0 st nd = None"
| "toTree (Suc fuel) st nd =
     map_option (Tree nd) (those (map (toTree fuel st) (children st (node_id nd))))"

definition toJSON :: "nat \<Rightarrow> state \<Rightarrow> tree list option" where
  "toJSON fuel st = those (map (toTree fuel st) (roots st))"

text \<open>The tree that a caller of \<open>buildSectionsTree\<close> sees.\<close>

definition sectionsTree :: "nat \<Rightarrow> row list \<Rightarrow> (error + tree list) option" where
  "sectionsTree fuel rows =
     (case buildSectionsTree fuel rows of
        None \<Rightarrow> None
      | Some (Inl e) \<Rightarrow> Some (Inl e)
      | Some (Inr st) \<Rightarrow> map_option Inr (toJSON fuel st))"

subsection \<open>flattenSections\<close>

definition indent :: "nat \<Rightarrow> string" where
  "indent depth = concat (replicate depth ''  '')"

definition mkEntry :: "nat \<Rightarrow> node \<Rightarrow> entry" where
  "mkEntry depth nd = \<lparr>entry_id = node_id nd, entry_name = indent depth @ node_name nd,
                        entry_isActive = isActive nd\<rparr>"

fun flattenSections :: "tree list \<Rightarrow> nat \<Rightarrow> entry list \<Rightarrow> entry list" where
  "flattenSections [] depth result = result"
| "flattenSections (Tree nd cs # nodes) depth result =
     flattenSections nodes depth (flattenSections cs (depth + 1) (result @ [mkEntry depth nd]))"

subsection \<open>Request values\<close>

text \<open>
  The scalar values that a request parameter or a field of a JSON body can hold.
  Numbers are restricted to integers that JavaScript prints in plain decimal notation.
\<close>

datatype jsval = JUndefined | JNull | JBool bool | JNum int | JStr string

datatype 'a response = Json 'a | Status nat string

definition isWhiteSpace :: "char \<Rightarrow> bool" where
  "isWhiteSpace c = (of_char c \<in> {9, 10, 11, 12, 13, 32 :: nat})"

definition isDigit :: "char \<Rightarrow> bool" where
  "isDigit c = (48 \<le> (of_char c :: nat) \<and> (of_char c :: nat) \<le> 57)"

definition parseDigits :: "string \<Rightarrow> int option" where
  "parseDigits s =
     (let ds = takeWhile isDigit s
      in if ds = [] then None else Some (foldl (\<lambda>a c. 10 * a + (of_char c - 48)) 0 ds))"

fun parseSigned :: "string \<Rightarrow> int option" where
  "parseSigned [] = None"
| "parseSigned (c # cs) =
     (if c = CHR ''-'' then map_option uminus (parseDigits cs)
      else if c = CHR ''+'' then parseDigits cs
      else parseDigits (c # cs))"

text \<open>\<open>Number.parseInt(value, 10)\<close>; \<open>None\<close> is \<open>NaN\<close>. Only ASCII white space is skipped.\<close>

fun parseInt :: "jsval \<Rightarrow> int option" where
  "parseInt (JNum n) = Some n"
| "parseInt (JStr s) = parseSigned (dropWhile isWhiteSpace s)"
| "parseInt v = None"

fun truthy :: "jsval \<Rightarrow> bool" where
  "truthy JUndefined = False"
| "truthy JNull = False"
| "truthy (JBool b) = b"
| "truthy (JNum n) = (n \<noteq> 0)"
| "truthy (JStr s) = (s \<noteq> [])"

function showNat :: "nat \<Rightarrow> string" where
  "showNat n = (if n < 10 then [char_of (48 + n)]
                else showNat (n div 10) @ [char_of (48 + n mod 10)])"
  by pat_completeness auto
termination
  by (relation "measure (\<lambda>n. n)") auto

text \<open>\<open>String(value)\<close>.\<close>

fun toString :: "jsval \<Rightarrow> string" where
  "toString JUndefined = ''undefined''"
| "toString JNull = ''null''"
| "toString (JBool b) = (if b then ''true'' else ''false'')"
| "toString (JNum n) = (if n < 0 then CHR ''-'' # showNat (nat (- n)) else showNat (nat n))"
| "toString (JStr s) = s"

text \<open>\<open>String.prototype.trim\<close>, for ASCII white space.\<close>

definition trim :: "string \<Rightarrow> string" where
  "trim s = rev (dropWhile isWhiteSpace (rev (dropWhile isWhiteSpace s)))"

datatype parsedParent = PUndefined | PNull | PId int

fun parseNullableParentId :: "jsval \<Rightarrow> parsedParent" where
  "parseNullableParentId JUndefined = PUndefined"
| "parseNullableParentId JNull = PNull"
| "parseNullableParentId v =
     (if v = JStr [] \<or> v = JStr ''null'' then PNull
      else (case parseInt v of None \<Rightarrow> PUndefined | Some i \<Rightarrow> PId i))"

subsection \<open>Reading endpoints\<close>

text \<open>\<open>ORDER BY order_index, id\<close>.\<close>

definition orderRows :: "row list \<Rightarrow> row list" where
  "orderRows rows = sort_key (\<lambda>r. (order_index r, row_id r)) rows"

text \<open>
  \<open>GET /api/sections/tree\<close>: the rows are selected, without the inactive ones unless a
  teacher asks for them, and handed to \<open>buildSectionsTree\<close>. An exception is answered
  with status 500.
\<close>

definition getSectionsTree :: "nat \<Rightarrow> string \<Rightarrow> jsval \<Rightarrow> row list \<Rightarrow> tree list response option" where
  "getSectionsTree fuel role include_inactive table =
     (let includeInactive = (role = ''teacher'' \<and> include_inactive = JStr ''1'');
          rows = orderRows (filter (\<lambda>r. includeInactive \<or> is_active r) table)
      in case sectionsTree fuel rows of
           None \<Rightarrow> None
         | Some (Inl e) \<Rightarrow> Some (Status 500 ''Database error'')
         | Some (Inr forest) \<Rightarrow> Some (Json forest))"

text \<open>\<open>GET /api/sections\<close>: the direct children of a parent, or the top-level rows.\<close>

definition getSections :: "string \<Rightarrow> jsval \<Rightarrow> jsval \<Rightarrow> row list \<Rightarrow> node list response" where
  "getSections role include_inactive parent_id_param table =
     (let includeInactive = (role = ''teacher'' \<and> include_inactive = JStr ''1'');
          parsedParentId = parseNullableParentId parent_id_param
      in if parsedParentId = PUndefined \<and> parent_id_param \<noteq> JUndefined
         then Status 400 ''Invalid parent_id''
         else Json (map mkNode (orderRows (filter
                (\<lambda>r. (includeInactive \<or> is_active r) \<and>
                     (case parsedParentId of
                        PId p \<Rightarrow> parent_id r = Some p
                      | _ \<Rightarrow> parent_id r = None)) table))))"

subsection \<open>Writing endpoints\<close>

record patch_body =
  body_name :: jsval
  body_parent_id :: jsval
  body_order_index :: jsval
  body_is_active :: jsval

datatype update = SetName string | SetParent "int option" | SetOrder int | SetActive bool
  | SetUpdatedAt string

fun applyUpdate :: "update \<Rightarrow> row \<Rightarrow> row" where
  "applyUpdate (SetName s) r = r\<lparr>row_name := s\<rparr>"
| "applyUpdate (SetParent p) r = r\<lparr>parent_id := p\<rparr>"
| "applyUpdate (SetOrder i) r = r\<lparr>order_index := i\<rparr>"
| "applyUpdate (SetActive b) r = r\<lparr>is_active := b\<rparr>"
| "applyUpdate (SetUpdatedAt t) r = r\<lparr>updated_at := t\<rparr>"

text \<open>\<open>UPDATE sections SET ... WHERE id = ?\<close>.\<close>

definition updateWhereId :: "int \<Rightarrow> update list \<Rightarrow> row list \<Rightarrow> row list" where
  "updateWhereId k updates table =
     map (\<lambda>r. if row_id r = k then fold applyUpdate updates r else r) table"

definition sectionExists :: "row list \<Rightarrow> int \<Rightarrow> bool" where
  "sectionExists table k = (k \<in> row_id ` set table)"

definition nameUpdate :: "patch_body \<Rightarrow> unit response + update list" where
  "nameUpdate body =
     (if body_name body = JUndefined then Inr []
      else let name = trim (toString (body_name body))
           in if name = [] then Inl (Status 400 ''Section name cannot be empty'')
              else Inr [SetName name])"

definition parentUpdate :: "row list \<Rightarrow> int \<Rightarrow> patch_body \<Rightarrow> unit response + update list" where
  "parentUpdate table sectionId body =
     (if body_parent_id body = JUndefined then Inr []
      else (case parseNullableParentId (body_parent_id body) of
              PUndefined \<Rightarrow> Inl (Status 400 ''Invalid parent_id'')
            | PNull \<Rightarrow> Inr [SetParent None]
            | PId p \<Rightarrow>
                if p = sectionId then Inl (Status 400 ''Section cannot be parent of itself'')
                else if \<not> sectionExists table p then Inl (Status 400 ''Parent section not found'')
                else Inr [SetParent (Some p)]))"

definition orderUpdate :: "patch_body \<Rightarrow> unit response + update list" where
  "orderUpdate body =
     (if body_order_index body = JUndefined then Inr []
      else (case parseInt (body_order_index body) of
              None \<Rightarrow> Inl (Status 400 ''Invalid order_index'')
            | Some i \<Rightarrow> Inr [SetOrder i]))"

definition activeUpdate :: "patch_body \<Rightarrow> update list" where
  "activeUpdate body =
     (if body_is_active body = JUndefined then []
      else [SetActive (truthy (body_is_active body))])"

text \<open>
  \<open>PATCH /api/sections/:id\<close>, called by a teacher. The result is the response and the
  table afterwards; \<open>now\<close> is the time stamp of the request.
\<close>

definition patchSection :: "string \<Rightarrow> string \<Rightarrow> patch_body \<Rightarrow> row list \<Rightarrow> unit response \<times> row list" where
  "patchSection now idParam body table =
     (case parseInt (JStr idParam) of
        None \<Rightarrow> (Status 400 ''Invalid section id'', table)
      | Some sectionId \<Rightarrow>
          if \<not> sectionExists table sectionId then (Status 404 ''Section not found'', table)
          else (case nameUpdate body of
            Inl resp \<Rightarrow> (resp, table)
          | Inr u1 \<Rightarrow> (case parentUpdate table sectionId body of
            Inl resp \<Rightarrow> (resp, table)
          | Inr u2 \<Rightarrow> (case orderUpdate body of
            Inl resp \<Rightarrow> (resp, table)
          | Inr u3 \<Rightarrow>
              let updates = u1 @ u2 @ u3 @ activeUpdate body
              in if updates = [] then (Status 400 ''No fields to update'', table)
                 else (Json (),
                       updateWhereId sectionId (updates @ [SetUpdatedAt now]) table)))))"

text \<open>\<open>DELETE /api/sections/:id\<close>, called by a teacher.\<close>

definition deleteSection :: "string \<Rightarrow> string \<Rightarrow> row list \<Rightarrow> unit response \<times> row list" where
  "deleteSection now idParam table =
     (case parseInt (JStr idParam) of
        None \<Rightarrow> (Status 400 ''Invalid section id'', table)
      | Some sectionId \<Rightarrow>
          let table' = updateWhereId sectionId [SetActive False, SetUpdatedAt now] table
          in if \<not> sectionExists table sectionId then (Status 404 ''Section not found'', table')
             else (Json (), table'))"

subsection \<open>Notions used in the statements\<close>

text \<open>All nodes of a tree, parents before children.\<close>

fun nodesOf :: "tree \<Rightarrow> node list" where
  "nodesOf (Tree nd cs) = nd # concat (map nodesOf cs)"

definition forestNodes :: "tree list \<Rightarrow> node list" where
  "forestNodes forest = concat (map nodesOf forest)"

text \<open>The pre-order traversal of the specification: every node with its depth.\<close>

fun preorder :: "nat \<Rightarrow> tree \<Rightarrow> (nat \<times> node) list" where
  "preorder depth (Tree nd cs) = (depth, nd) # concat (map (preorder (Suc depth)) cs)"

text \<open>The parent links of a table, as pairs (child, parent).\<close>

definition parentLinks :: "row list \<Rightarrow> (int \<times> int) set" where
  "parentLinks table =
     set (concat (map (\<lambda>r. case parent_id r of None \<Rightarrow> [] | Some p \<Rightarrow> [(row_id r, p)]) table))"

definition noSelfParent :: "row list \<Rightarrow> bool" where
  "noSelfParent table = (\<forall>r \<in> set table. parent_id r \<noteq> Some (row_id r))"

definition parentsExist :: "row list \<Rightarrow> bool" where
  "parentsExist table = (\<forall>r \<in> set table. \<forall>p. parent_id r = Some p \<longrightarrow> p \<in> row_id ` set table)"

text \<open>Siblings in the order of the comparator, and every sibling group of a forest below the top level.\<close>

definition siblingsSorted :: "tree list \<Rightarrow> bool" where
  "siblingsSorted ts = sorted_wrt (\<lambda>a b. compareNodes a b < 0) (map label ts)"

fun orderedForest :: "tree list \<Rightarrow> bool" where
  "orderedForest [] = True"
| "orderedForest (Tree nd cs # ts) = (siblingsSorted cs \<and> orderedForest cs \<and> orderedForest ts)"

subsection \<open>Notions used in the proofs\<close>

text \<open>
  For the indexed nodes \<open>ns\<close>: a root is a node without a resolvable parent, \<open>childOf\<close>
  links a node to the indexed node that its \<open>parentId\<close> names, and a node is grounded
  when its chain of parents ends in a root.
\<close>

definition isRoot :: "node list \<Rightarrow> node \<Rightarrow> bool" where
  "isRoot ns nd = (case parentId nd of None \<Rightarrow> True | Some p \<Rightarrow> p \<notin> node_id ` set ns)"

definition childOf :: "node list \<Rightarrow> (node \<times> node) set" where
  "childOf ns = {(c, p). c \<in> set ns \<and> p \<in> set ns \<and> parentId c = Some (node_id p)}"

inductive grounded :: "node list \<Rightarrow> node \<Rightarrow> bool" for ns :: "node list" where
  root: "nd \<in> set ns \<Longrightarrow> isRoot ns nd \<Longrightarrow> grounded ns nd"
| child: "(nd, p) \<in> childOf ns \<Longrightarrow> grounded ns p \<Longrightarrow> grounded ns nd"

definition up :: "node list \<Rightarrow> node \<Rightarrow> node set" where
  "up ns nd = {a. (nd, a) \<in> (childOf ns)\<^sup>+}"

text \<open>The arrays of a state hold exactly the roots and the children of each indexed node.\<close>

definition shape :: "node list \<Rightarrow> state \<Rightarrow> bool" where
  "shape ns st =
     (set (roots st) = {nd \<in> set ns. isRoot ns nd} \<and> distinct (roots st) \<and>
      (\<forall>p \<in> set ns. set (children st (node_id p)) = {c. (c, p) \<in> childOf ns}) \<and>
      (\<forall>k. distinct (children st k)))"

text \<open>Every array of the second state is the array of the first, as it was or sorted.\<close>

definition refines :: "state \<Rightarrow> state \<Rightarrow> bool" where
  "refines st st' =
     ((roots st' = roots st \<or> roots st' = sortArray (roots st)) \<and>
      (\<forall>k. children st' k = children st k \<or> children st' k = sortArray (children st k)))"

text \<open>The key whose lexicographic order the comparator is shown to decide.\<close>

definition sortKey :: "node \<Rightarrow> int \<times> int" where
  "sortKey a = (orderIndex a, node_id a)"

definition sortedArr :: "node list \<Rightarrow> bool" where
  "sortedArr xs = sorted (map sortKey xs)"

text \<open>An index has one entry per key, and the entry of a key holds the node with that identifier.\<close>

definition indexOk :: "(int \<times> node) list \<Rightarrow> bool" where
  "indexOk byId = (distinct (map fst byId) \<and> (\<forall>(k, nd) \<in> set byId. node_id nd = k))"

subsection \<open>Example tables\<close>

definition secA :: row where
  "secA = \<lparr>row_id = 1, row_name = ''A'', parent_id = None, order_index = 0,
           is_active = True, created_at = ''t0'', updated_at = ''t0''\<rparr>"

definition secB :: row where
  "secB = \<lparr>row_id = 2, row_name = ''B'', parent_id = Some 1, order_index = 0,
           is_active = True, created_at = ''t0'', updated_at = ''t0''\<rparr>"

definition secC :: row where
  "secC = \<lparr>row_id = 3, row_name = ''C'', parent_id = None, order_index = 1,
           is_active = False, created_at = ''t0'', updated_at = ''t0''\<rparr>"

definition secD :: row where
  "secD = \<lparr>row_id = 4, row_name = ''D'', parent_id = Some 3, order_index = 0,
           is_active = True, created_at = ''t0'', updated_at = ''t0''\<rparr>"

definition secE :: row where
  "secE = \<lparr>row_id = 5, row_name = ''E'', parent_id = Some 6, order_index = 0,
           is_active = True, created_at = ''t0'', updated_at = ''t0''\<rparr>"

definition secF :: row where
  "secF = \<lparr>row_id = 6, row_name = ''F'', parent_id = Some 5, order_index = 0,
           is_active = True, created_at = ''t0'', updated_at = ''t0''\<rparr>"

definition sections :: "row list" where
  "sections = [secB, secA, secC, secD, secE, secF]"

definition wholeForest :: "tree list" where
  "wholeForest = [Tree (mkNode secA) [Tree (mkNode secB) []], Tree (mkNode secC) [Tree (mkNode secD) []]]"

definition activeForest :: "tree list" where
  "activeForest = [Tree (mkNode secA) [Tree (mkNode secB) []], Tree (mkNode secD) []]"









definition reparent :: patch_body where
  "reparent = \<lparr>body_name = JUndefined, body_parent_id = JNum 2,
               body_order_index = JUndefined, body_is_active = JUndefined\<rparr>"

section \<open>Properties\<close>

subsection \<open>flattenSections\<close>

lemma forest_induct [case_names Nil Cons]:
  assumes "P []" and "\<And>nd cs ts. P cs \<Longrightarrow> P ts \<Longrightarrow> P (Tree nd cs # ts)"
  shows "P ts"
  using flattenSections.induct [of "\<lambda>n d r. P n" ts 0 "[]"] assms by blast

lemma flattenSections_acc:
  "flattenSections nodes depth result = result @ flattenSections nodes depth []"
proof (induction nodes arbitrary: depth result rule: forest_induct)
  case Nil
  show ?case by simp
next
  case (Cons nd cs ts)
  have "flattenSections (Tree nd cs # ts) depth result
      = flattenSections ts depth (flattenSections cs (depth + 1) (result @ [mkEntry depth nd]))"
    by simp
  also have "\<dots> = flattenSections cs (depth + 1) (result @ [mkEntry depth nd]) @ flattenSections ts depth []"
    by (rule Cons.IH(2))
  also have "flattenSections cs (depth + 1) (result @ [mkEntry depth nd])
      = (result @ [mkEntry depth nd]) @ flattenSections cs (depth + 1) []"
    by (rule Cons.IH(1))
  finally have l: "flattenSections (Tree nd cs # ts) depth result
      = result @ mkEntry depth nd # flattenSections cs (depth + 1) [] @ flattenSections ts depth []"
    by simp
  have "flattenSections (Tree nd cs # ts) depth []
      = flattenSections ts depth (flattenSections cs (depth + 1) [mkEntry depth nd])"
    by simp
  also have "\<dots> = flattenSections cs (depth + 1) [mkEntry depth nd] @ flattenSections ts depth []"
    by (rule Cons.IH(2))
  also have "flattenSections cs (depth + 1) [mkEntry depth nd]
      = [mkEntry depth nd] @ flattenSections cs (depth + 1) []"
    by (rule Cons.IH(1))
  finally have r: "flattenSections (Tree nd cs # ts) depth []
      = mkEntry depth nd # flattenSections cs (depth + 1) [] @ flattenSections ts depth []"
    by simp
  show ?case by (simp only: l r)
qed

lemma flattenSections_Cons:
  "flattenSections (Tree nd cs # nodes) depth [] =
     mkEntry depth nd # flattenSections cs (Suc depth) [] @ flattenSections nodes depth []"
proof -
  have "flattenSections (Tree nd cs # nodes) depth [] =
        flattenSections nodes depth (flattenSections cs (depth + 1) [mkEntry depth nd])"
    by simp
  also have "\<dots> = flattenSections cs (depth + 1) [mkEntry depth nd] @ flattenSections nodes depth []"
    by (rule flattenSections_acc)
  also have "flattenSections cs (depth + 1) [mkEntry depth nd] =
        [mkEntry depth nd] @ flattenSections cs (depth + 1) []"
    by (rule flattenSections_acc)
  finally show ?thesis by simp
qed

lemma indent_replicate: "indent depth = replicate (2 * depth) CHR '' ''"
  by (induction depth) (simp_all add: indent_def)

lemma flattenSections_preorder:
  "flattenSections forest depth [] =
     map (\<lambda>(d, nd). mkEntry d nd) (concat (map (preorder depth) forest))"
proof (induction forest arbitrary: depth rule: forest_induct)
  case Nil
  show ?case by simp
next
  case (Cons nd cs ts)
  show ?case
    by (simp add: flattenSections_Cons Cons.IH del: flattenSections.simps)
qed

text \<open>
  C3, as the code has it: \<open>flattenSections\<close> returns the pre-order traversal of the forest
  (each node before its children, children in sibling order) as entries with the three
  fields \<open>id\<close>, \<open>name\<close> and \<open>isActive\<close>; the name is the node's name behind two spaces
  per depth level, \<open>isActive\<close> is copied, and an inactive node's name gets nothing else.
  The entry has no \<open>depth\<close> field.
\<close>

theorem flatten_is_preorder:
  "flattenSections forest 0 [] =
     map (\<lambda>(depth, nd). \<lparr>entry_id = node_id nd,
                          entry_name = replicate (2 * depth) CHR '' '' @ node_name nd,
                          entry_isActive = isActive nd\<rparr>)
         (concat (map (preorder 0) forest))"
  by (simp add: flattenSections_preorder mkEntry_def indent_replicate)

text \<open>
  C3 as stated fails: the entries do not carry the depth. A root named
  \<open>''  A''\<close> and a child named \<open>''A''\<close>, both with identifier 1, give the same entry at
  depth 0 and at depth 1.
\<close>

theorem flatten_entry_without_depth:
  "flattenSections
     [Tree \<lparr>node_id = 1, node_name = ''  A'', parentId = None, orderIndex = 0, isActive = True\<rparr> []] 0 []
   = [\<lparr>entry_id = 1, entry_name = ''  A'', entry_isActive = True\<rparr>]
   \<and> flattenSections
     [Tree \<lparr>node_id = 2, node_name = ''B'', parentId = None, orderIndex = 0, isActive = True\<rparr>
        [Tree \<lparr>node_id = 1, node_name = ''A'', parentId = Some 2, orderIndex = 0, isActive = True\<rparr> []]] 0 []
   = [\<lparr>entry_id = 2, entry_name = ''B'', entry_isActive = True\<rparr>,
      \<lparr>entry_id = 1, entry_name = ''  A'', entry_isActive = True\<rparr>]"
  by (simp add: mkEntry_def indent_def)

text \<open>
  C5: \<open>flattenSections\<close> of the empty forest is empty; of a single root without children
  it is one entry with the unindented name; and in general the entry of a node at some
  depth is followed by its children flattened one level deeper, and then by its later
  siblings flattened at the node's own depth.
\<close>

theorem flatten_depths:
  "flattenSections [] 0 [] = []
   \<and> flattenSections [Tree nd []] 0 [] =
       [\<lparr>entry_id = node_id nd, entry_name = node_name nd, entry_isActive = isActive nd\<rparr>]
   \<and> flattenSections (Tree nd cs # siblings) depth [] =
       \<lparr>entry_id = node_id nd, entry_name = replicate (2 * depth) CHR '' '' @ node_name nd,
        entry_isActive = isActive nd\<rparr>
       # flattenSections cs (depth + 1) [] @ flattenSections siblings depth []"
proof -
  have a: "flattenSections [] 0 [] = []" by simp
  have b: "flattenSections [Tree nd []] 0 [] =
       [\<lparr>entry_id = node_id nd, entry_name = node_name nd, entry_isActive = isActive nd\<rparr>]"
    by (simp add: mkEntry_def indent_def)
  have c: "flattenSections (Tree nd cs # siblings) depth [] =
       \<lparr>entry_id = node_id nd, entry_name = replicate (2 * depth) CHR '' '' @ node_name nd,
        entry_isActive = isActive nd\<rparr>
       # flattenSections cs (depth + 1) [] @ flattenSections siblings depth []"
    by (simp add: flattenSections_Cons mkEntry_def indent_replicate del: flattenSections.simps)
  show ?thesis using a b c by blast
qed

subsection \<open>Deleting a section\<close>

lemma fold_applyUpdate_id: "row_id (fold applyUpdate us r) = row_id r"
proof (induction us arbitrary: r)
  case Nil show ?case by simp
next
  case (Cons u us) show ?case by (cases u) (simp_all add: Cons.IH)
qed

lemma updateWhereId_ids: "map row_id (updateWhereId k us table) = map row_id table"
  by (simp add: updateWhereId_def fold_applyUpdate_id)

text \<open>
  C9: \<open>DELETE\<close> leaves every row in place; the rows with the given identifier get
  \<open>is_active = 0\<close> and a new \<open>updated_at\<close> and keep all other fields; every other row,
  the children of the section among them, is unchanged.
\<close>

theorem delete_is_soft:
  "snd (deleteSection now idParam table) =
     map (\<lambda>r. if parseInt (JStr idParam) = Some (row_id r)
              then r\<lparr>is_active := False, updated_at := now\<rparr> else r) table
   \<and> length (snd (deleteSection now idParam table)) = length table
   \<and> map row_id (snd (deleteSection now idParam table)) = map row_id table
   \<and> (\<forall>r \<in> set table. parseInt (JStr idParam) \<noteq> Some (row_id r) \<longrightarrow>
         r \<in> set (snd (deleteSection now idParam table)))"
proof -
  let ?f = "\<lambda>r. if parseInt (JStr idParam) = Some (row_id r)
              then r\<lparr>is_active := False, updated_at := now\<rparr> else r"
  have eq: "snd (deleteSection now idParam table) = map ?f table"
  proof (cases "parseInt (JStr idParam)")
    case None
    then show ?thesis by (simp add: deleteSection_def)
  next
    case (Some k)
    have "snd (deleteSection now idParam table) = updateWhereId k [SetActive False, SetUpdatedAt now] table"
      using Some by (simp add: deleteSection_def Let_def)
    also have "\<dots> = map ?f table"
      using Some by (auto simp add: updateWhereId_def)
    finally show ?thesis .
  qed
  have len: "length (map ?f table) = length table" by simp
  have ids: "map row_id (map ?f table) = map row_id table" by simp
  have keep: "\<forall>r \<in> set table. parseInt (JStr idParam) \<noteq> Some (row_id r) \<longrightarrow> r \<in> set (map ?f table)"
    by force
  show ?thesis unfolding eq using len ids keep by blast
qed

theorem delete_is_soft_witness:
  "snd (deleteSection ''t1'' ''1'' [secA, secB]) = [secA\<lparr>is_active := False, updated_at := ''t1''\<rparr>, secB]"
  using delete_is_soft [of "''t1''" "''1''" "[secA, secB]"]
  by (simp add: isWhiteSpace_def parseDigits_def isDigit_def secA_def secB_def)

subsection \<open>Updating a section\<close>

lemma parentUpdate_cases:
  assumes "parentUpdate table k body = Inr us"
  shows "us = [] \<or> us = [SetParent None] \<or> (\<exists>p. us = [SetParent (Some p)] \<and> p \<noteq> k \<and> p \<in> row_id ` set table)"
  using assms
  by (auto simp add: parentUpdate_def sectionExists_def split: if_splits parsedParent.splits)

lemma nameUpdate_cases:
  assumes "nameUpdate body = Inr us"
  shows "us = [] \<or> (\<exists>s. us = [SetName s])"
  using assms by (auto simp add: nameUpdate_def Let_def split: if_splits)

lemma orderUpdate_cases:
  assumes "orderUpdate body = Inr us"
  shows "us = [] \<or> (\<exists>i. us = [SetOrder i])"
  using assms by (auto simp add: orderUpdate_def split: if_splits option.splits)

lemma activeUpdate_cases: "activeUpdate body = [] \<or> (\<exists>b. activeUpdate body = [SetActive b])"
  by (simp add: activeUpdate_def)

text \<open>Only the update of \<open>parent_id\<close> changes the parent column of the addressed row.\<close>

lemma fold_applyUpdate_append: "fold applyUpdate (us @ vs) r = fold applyUpdate vs (fold applyUpdate us r)"
  by simp

lemma parent_after_other:
  assumes "\<forall>u \<in> set us. \<forall>p. u \<noteq> SetParent p"
  shows "parent_id (fold applyUpdate us r) = parent_id r"
  using assms
proof (induction us arbitrary: r)
  case Nil show ?case by simp
next
  case (Cons u us)
  then show ?case by (cases u) simp_all
qed

lemma patch_parent:
  assumes n: "nameUpdate body = Inr u1" and p: "parentUpdate table k body = Inr u2"
    and o: "orderUpdate body = Inr u3"
  shows "parent_id (fold applyUpdate (u1 @ u2 @ u3 @ activeUpdate body @ [SetUpdatedAt now]) r)
         = parent_id (fold applyUpdate u2 r)"
proof -
  have a: "\<forall>u \<in> set u1. \<forall>p. u \<noteq> SetParent p" using nameUpdate_cases [OF n] by auto
  have b: "\<forall>u \<in> set (u3 @ activeUpdate body @ [SetUpdatedAt now]). \<forall>p. u \<noteq> SetParent p"
    using orderUpdate_cases [OF o] activeUpdate_cases [of body] by auto
  have c: "parent_id (fold applyUpdate u2 (fold applyUpdate u1 r)) = parent_id (fold applyUpdate u2 r)"
    using parentUpdate_cases [OF p] parent_after_other [OF a, of r] by auto
  have "fold applyUpdate (u1 @ u2 @ u3 @ activeUpdate body @ [SetUpdatedAt now]) r
      = fold applyUpdate (u3 @ activeUpdate body @ [SetUpdatedAt now]) (fold applyUpdate u2 (fold applyUpdate u1 r))"
    by simp
  then show ?thesis using parent_after_other [OF b] c by simp
qed

lemma patchSection_cases:
  "snd (patchSection now idParam body table) = table \<or>
   (\<exists>k u1 u2 u3. parseInt (JStr idParam) = Some k \<and> nameUpdate body = Inr u1 \<and>
      parentUpdate table k body = Inr u2 \<and> orderUpdate body = Inr u3 \<and>
      fst (patchSection now idParam body table) = Json () \<and>
      snd (patchSection now idParam body table) =
        updateWhereId k ((u1 @ u2 @ u3 @ activeUpdate body) @ [SetUpdatedAt now]) table)"
  by (auto simp add: patchSection_def Let_def split: option.splits sum.splits)

lemma patchSection_ids: "map row_id (snd (patchSection now idParam body table)) = map row_id table"
  using patchSection_cases [of now idParam body table] by (auto simp add: updateWhereId_ids)

lemma patchSection_row:
  assumes "r' \<in> set (snd (patchSection now idParam body table))"
  shows "r' \<in> set table \<or>
     (\<exists>r \<in> set table. row_id r' = row_id r \<and>
        (parent_id r' = parent_id r \<or> parent_id r' = None \<or>
         (\<exists>p. parent_id r' = Some p \<and> p \<noteq> row_id r \<and> p \<in> row_id ` set table)))"
proof -
  from patchSection_cases [of now idParam body table]
  show ?thesis
  proof
    assume "snd (patchSection now idParam body table) = table"
    then show ?thesis using assms by simp
  next
    assume "\<exists>k u1 u2 u3. parseInt (JStr idParam) = Some k \<and> nameUpdate body = Inr u1 \<and>
      parentUpdate table k body = Inr u2 \<and> orderUpdate body = Inr u3 \<and>
      fst (patchSection now idParam body table) = Json () \<and>
      snd (patchSection now idParam body table) =
        updateWhereId k ((u1 @ u2 @ u3 @ activeUpdate body) @ [SetUpdatedAt now]) table"
    then obtain k u1 u2 u3 where n: "nameUpdate body = Inr u1"
      and p: "parentUpdate table k body = Inr u2" and o: "orderUpdate body = Inr u3"
      and t: "snd (patchSection now idParam body table) =
        updateWhereId k ((u1 @ u2 @ u3 @ activeUpdate body) @ [SetUpdatedAt now]) table"
      by blast
    let ?us = "u1 @ u2 @ u3 @ activeUpdate body @ [SetUpdatedAt now]"
    from assms t obtain r where r: "r \<in> set table"
      and r': "r' = (if row_id r = k then fold applyUpdate ?us r else r)"
      by (auto simp add: updateWhereId_def)
    show ?thesis
    proof (cases "row_id r = k")
      case False
      then show ?thesis using r r' by simp
    next
      case True
      then have e: "r' = fold applyUpdate ?us r" using r' by simp
      have id: "row_id r' = row_id r" unfolding e by (rule fold_applyUpdate_id)
      have par: "parent_id r' = parent_id (fold applyUpdate u2 r)"
        unfolding e by (rule patch_parent [OF n p o])
      from parentUpdate_cases [OF p]
      have "parent_id r' = parent_id r \<or> parent_id r' = None \<or>
         (\<exists>p. parent_id r' = Some p \<and> p \<noteq> row_id r \<and> p \<in> row_id ` set table)"
        using par True by auto
      then show ?thesis using r id by blast
    qed
  qed
qed

text \<open>
  C7, as the code has it: an update whose \<open>parent_id\<close> is the section's own identifier is
  answered with an error status and changes nothing; and every update keeps the table
  free of sections that are their own parent and keeps every non-null \<open>parent_id\<close>
  pointing to an existing section. Longer cycles are not looked for.
\<close>

theorem patch_rejects_self_parent_keeps_links:
  "(parseInt (JStr idParam) = Some k \<and> parseNullableParentId (body_parent_id body) = PId k \<longrightarrow>
      (\<exists>n msg. fst (patchSection now idParam body table) = Status n msg) \<and>
      snd (patchSection now idParam body table) = table)
   \<and> (noSelfParent table \<longrightarrow> noSelfParent (snd (patchSection now idParam body table)))
   \<and> (parentsExist table \<longrightarrow> parentsExist (snd (patchSection now idParam body table)))"
proof -
  have a: "(\<exists>n msg. fst (patchSection now idParam body table) = Status n msg) \<and>
      snd (patchSection now idParam body table) = table"
    if "parseInt (JStr idParam) = Some k" "parseNullableParentId (body_parent_id body) = PId k"
  proof -
    have "body_parent_id body \<noteq> JUndefined" using that(2) by auto
    then have "\<exists>n msg. parentUpdate table k body = Inl (Status n msg)"
      using that(2) by (simp add: parentUpdate_def)
    then show ?thesis using that(1)
      by (auto simp add: patchSection_def nameUpdate_def Let_def split: sum.splits)
  qed
  have ids: "row_id ` set (snd (patchSection now idParam body table)) = row_id ` set table"
    using patchSection_ids [of now idParam body table] by (metis set_map)
  have b: "noSelfParent (snd (patchSection now idParam body table))" if h: "noSelfParent table"
    unfolding noSelfParent_def
  proof
    fix r' assume "r' \<in> set (snd (patchSection now idParam body table))"
    from patchSection_row [OF this] h
    show "parent_id r' \<noteq> Some (row_id r')"
      by (auto simp add: noSelfParent_def)
  qed
  have c: "parentsExist (snd (patchSection now idParam body table))" if h: "parentsExist table"
    unfolding parentsExist_def ids
  proof (intro ballI allI impI)
    fix r' p assume "r' \<in> set (snd (patchSection now idParam body table))" and pp: "parent_id r' = Some p"
    from patchSection_row [OF this(1)] h pp
    show "p \<in> row_id ` set table"
      by (auto simp add: parentsExist_def)
  qed
  show ?thesis using a b c by blast
qed

text \<open>
  C7 as stated fails: with sections 1 (top level) and 2 (child of 1), the update that makes 2
  the parent of 1 is accepted, and the parent links, acyclic before, then hold the cycle
  1, 2, 1.
\<close>

theorem patch_creates_cycle:
  "patchSection ''t1'' ''1'' reparent [secA, secB]
     = (Json (), [secA\<lparr>parent_id := Some 2, updated_at := ''t1''\<rparr>, secB])
   \<and> acyclic (parentLinks [secA, secB])
   \<and> \<not> acyclic (parentLinks (snd (patchSection ''t1'' ''1'' reparent [secA, secB])))"
proof -
  have a: "patchSection ''t1'' ''1'' reparent [secA, secB]
     = (Json (), [secA\<lparr>parent_id := Some 2, updated_at := ''t1''\<rparr>, secB])"
    by (simp add: patchSection_def isWhiteSpace_def parseDigits_def isDigit_def secA_def secB_def
        reparent_def sectionExists_def nameUpdate_def parentUpdate_def orderUpdate_def
        activeUpdate_def updateWhereId_def)
  have e: "acyclic ({} :: (int \<times> int) set)"
    by (simp add: acyclic_def)
  have b: "acyclic (parentLinks [secA, secB])"
    using e by (simp add: parentLinks_def secA_def secB_def)
  have pl: "parentLinks [secA\<lparr>parent_id := Some 2, updated_at := ''t1''\<rparr>, secB] = {(1, 2), (2, 1)}"
    by (simp add: parentLinks_def secA_def secB_def)
  have "((2 :: int), (1 :: int)) \<in> {(2, 1)}\<^sup>*"
    by (rule r_into_rtrancl) simp
  then have nc: "\<not> acyclic {(1, 2), (2, 1 :: int)}"
    by simp
  have c: "\<not> acyclic (parentLinks (snd (patchSection ''t1'' ''1'' reparent [secA, secB])))"
    unfolding a snd_conv pl by (rule nc)
  show ?thesis using a b c by blast
qed

theorem patch_witness:
  "noSelfParent [secA, secB] \<and> parentsExist [secA, secB]
   \<and> noSelfParent (snd (patchSection ''t1'' ''1'' reparent [secA, secB]))
   \<and> parentsExist (snd (patchSection ''t1'' ''1'' reparent [secA, secB]))
   \<and> parseInt (JStr ''2'') = Some 2 \<and> parseNullableParentId (body_parent_id reparent) = PId 2
   \<and> snd (patchSection ''t1'' ''2'' reparent [secA, secB]) = [secA, secB]"
proof -
  have a: "noSelfParent [secA, secB]" by (simp add: noSelfParent_def secA_def secB_def)
  have b: "parentsExist [secA, secB]" by (simp add: parentsExist_def secA_def secB_def)
  have c: "parseInt (JStr ''2'') = Some 2" by (simp add: isWhiteSpace_def parseDigits_def isDigit_def)
  have d: "parseNullableParentId (body_parent_id reparent) = PId 2" by (simp add: reparent_def)
  show ?thesis
    using a b c d patch_rejects_self_parent_keeps_links [of "''1''" 1 reparent "''t1''" "[secA, secB]"]
      patch_rejects_self_parent_keeps_links [of "''2''" 2 reparent "''t1''" "[secA, secB]"]
    by blast
qed

subsection \<open>The index\<close>

lemma set_update_subset: "set (AList.update k v al) \<subseteq> insert (k, v) (set al)"
  by (induction al) auto

lemma indexOk_update:
  assumes "indexOk al" and "node_id v = k"
  shows "indexOk (AList.update k v al)"
  using assms set_update_subset [of k v al]
  by (auto simp add: indexOk_def distinct_update)

lemma fold_update_props:
  assumes "indexOk al"
  shows "indexOk (fold (\<lambda>r. AList.update (row_id r) (mkNode r)) rows al)
    \<and> fst ` set (fold (\<lambda>r. AList.update (row_id r) (mkNode r)) rows al) = row_id ` set rows \<union> fst ` set al
    \<and> snd ` set (fold (\<lambda>r. AList.update (row_id r) (mkNode r)) rows al) \<subseteq> mkNode ` set rows \<union> snd ` set al
    \<and> length (fold (\<lambda>r. AList.update (row_id r) (mkNode r)) rows al) \<le> length rows + length al"
  using assms
proof (induction rows arbitrary: al)
  case Nil
  then show ?case by simp
next
  case (Cons r rows)
  let ?al = "AList.update (row_id r) (mkNode r) al"
  have ok: "indexOk ?al"
    by (rule indexOk_update [OF Cons.prems]) (simp add: mkNode_def)
  have k: "fst ` set ?al = {row_id r} \<union> fst ` set al" by (rule dom_update)
  have v: "snd ` set ?al \<subseteq> insert (mkNode r) (snd ` set al)"
    using set_update_subset [of "row_id r" "mkNode r" al] by force
  have l: "length ?al \<le> Suc (length al)"
    by (induction al) auto
  let ?g = "\<lambda>r. AList.update (row_id r) (mkNode r)"
  note ih = Cons.IH [OF ok]
  have f: "fold ?g (r # rows) al = fold ?g rows ?al" by simp
  have c1: "indexOk (fold ?g (r # rows) al)" unfolding f using ih by blast
  have "fst ` set (fold ?g rows ?al) = row_id ` set rows \<union> fst ` set ?al" using ih by blast
  then have c2: "fst ` set (fold ?g (r # rows) al) = row_id ` set (r # rows) \<union> fst ` set al"
    unfolding f k by auto
  have "snd ` set (fold ?g rows ?al) \<subseteq> mkNode ` set rows \<union> snd ` set ?al" using ih by blast
  then have c3: "snd ` set (fold ?g (r # rows) al) \<subseteq> mkNode ` set (r # rows) \<union> snd ` set al"
    unfolding f using v by auto
  have "length (fold ?g rows ?al) \<le> length rows + length ?al" using ih by blast
  then have c4: "length (fold ?g (r # rows) al) \<le> length (r # rows) + length al"
    unfolding f using l by simp
  show ?case using c1 c2 c3 c4 by blast
qed

lemma indexRows_props:
  "indexOk (indexRows rows) \<and> fst ` set (indexRows rows) = row_id ` set rows
   \<and> snd ` set (indexRows rows) \<subseteq> mkNode ` set rows \<and> length (indexRows rows) \<le> length rows"
  using fold_update_props [of "[]" rows] by (simp add: indexRows_def indexOk_def)

lemma indexRows_distinct_rows:
  assumes "distinct (map row_id rows)"
  shows "indexRows rows = map (\<lambda>r. (row_id r, mkNode r)) rows"
proof -
  have "fold (\<lambda>r. AList.update (row_id r) (mkNode r)) rows al = al @ map (\<lambda>r. (row_id r, mkNode r)) rows"
    if "distinct (map row_id rows)" "row_id ` set rows \<inter> fst ` set al = {}" for al
    using that
  proof (induction rows arbitrary: al)
    case Nil
    show ?case by simp
  next
    case (Cons r rows)
    have a: "AList.update (row_id r) (mkNode r) al = al @ [(row_id r, mkNode r)]"
      using Cons.prems(2) by (induction al) auto
    have "fold (\<lambda>r. AList.update (row_id r) (mkNode r)) rows (al @ [(row_id r, mkNode r)])
        = (al @ [(row_id r, mkNode r)]) @ map (\<lambda>r. (row_id r, mkNode r)) rows"
      using Cons.prems by (intro Cons.IH) auto
    then show ?case using a by simp
  qed
  from this [of "[]"] assms show ?thesis by (simp add: indexRows_def)
qed

text \<open>The nodes of an index.\<close>

lemma index_nodes:
  assumes "indexOk byId" and "ns = map snd byId"
  shows "distinct (map node_id ns)" and "has byId p \<longleftrightarrow> p \<in> node_id ` set ns"
    and "map_of byId p = Some parent \<Longrightarrow> parent \<in> set ns \<and> node_id parent = p"
    and "has byId p \<Longrightarrow> map_of byId p \<noteq> None"
proof -
  have e: "map node_id ns = map fst byId"
    using assms by (auto simp add: indexOk_def)
  show "distinct (map node_id ns)" using assms(1) e by (simp add: indexOk_def)
  have "fst ` set byId = node_id ` set ns"
    using e by (metis list.set_map)
  then show "has byId p \<longleftrightarrow> p \<in> node_id ` set ns" by (simp add: has_def)
  show "parent \<in> set ns \<and> node_id parent = p" if "map_of byId p = Some parent"
  proof -
    have "(p, parent) \<in> set byId" using that by (rule map_of_SomeD)
    then show ?thesis using assms by (force simp add: indexOk_def)
  qed
  show "map_of byId p \<noteq> None" if "has byId p"
    using that by (simp add: has_def map_of_eq_None_iff)
qed

subsection \<open>Assigning the nodes\<close>

lemma assignNode_root:
  assumes "indexOk byId" and "ns = map snd byId" and "isRoot ns nd"
  shows "assignNode byId nd st = Inr (st\<lparr>roots := roots st @ [nd]\<rparr>)"
  using assms index_nodes(2) [OF assms(1,2)]
  by (auto simp add: assignNode_def isRoot_def split: option.splits)

lemma assignNode_child:
  assumes "indexOk byId" and "ns = map snd byId" and "\<not> isRoot ns nd"
  shows "\<exists>p. parentId nd = Some p \<and> p \<in> node_id ` set ns \<and>
     assignNode byId nd st = Inr (st\<lparr>children := (children st)(p := children st p @ [nd])\<rparr>)"
proof -
  from assms(3) obtain p where p: "parentId nd = Some p" "p \<in> node_id ` set ns"
    by (auto simp add: isRoot_def split: option.splits)
  then have h: "has byId p" using index_nodes(2) [OF assms(1,2)] by simp
  then obtain parent where g: "map_of byId p = Some parent"
    using index_nodes(4) [OF assms(1,2)] by blast
  then have "node_id parent = p" using index_nodes(3) [OF assms(1,2)] by blast
  then show ?thesis using p h g by (simp add: assignNode_def)
qed

lemma assignAll_closed:
  assumes "indexOk byId" and "ns = map snd byId"
  shows "assignAll byId xs st =
     Inr \<lparr>roots = roots st @ filter (isRoot ns) xs,
          children = (\<lambda>k. children st k @ filter (\<lambda>c. \<not> isRoot ns c \<and> parentId c = Some k) xs)\<rparr>"
proof (induction xs arbitrary: st)
  case Nil
  show ?case by simp
next
  case (Cons nd xs)
  show ?case
  proof (cases "isRoot ns nd")
    case True
    show ?thesis
      using True by (simp add: assignNode_root [OF assms True] Cons.IH)
  next
    case False
    from assignNode_child [OF assms False, of st] obtain p where
      p: "parentId nd = Some p" and
      a: "assignNode byId nd st = Inr (st\<lparr>children := (children st)(p := children st p @ [nd])\<rparr>)"
      by blast
    show ?thesis
      using False p by (simp add: a Cons.IH fun_eq_iff)
  qed
qed

lemma childOf_single_valued:
  assumes "distinct (map node_id ns)"
  shows "single_valued (childOf ns)"
proof (rule single_valuedI)
  fix c p q assume "(c, p) \<in> childOf ns" "(c, q) \<in> childOf ns"
  then have "p \<in> set ns" "q \<in> set ns" "node_id p = node_id q"
    by (auto simp add: childOf_def)
  moreover have "inj_on node_id (set ns)" using assms by (simp add: distinct_map)
  ultimately show "p = q" by (rule_tac inj_onD)
qed

lemma children_of_index:
  assumes "p \<in> set ns"
  shows "{c \<in> set ns. \<not> isRoot ns c \<and> parentId c = Some (node_id p)} = {c. (c, p) \<in> childOf ns}"
  using assms by (auto simp add: childOf_def isRoot_def)

lemma assignAll_shape:
  assumes "indexOk byId" and "ns = map snd byId"
  shows "\<exists>st. assignAll byId ns emptyState = Inr st \<and> shape ns st
     \<and> roots st = filter (isRoot ns) ns"
proof -
  have d: "distinct ns" using index_nodes(1) [OF assms] by (rule distinct_map [THEN iffD1, THEN conjunct1])
  let ?st = "\<lparr>roots = filter (isRoot ns) ns,
          children = (\<lambda>k. filter (\<lambda>c. \<not> isRoot ns c \<and> parentId c = Some k) ns)\<rparr>"
  have "assignAll byId ns emptyState = Inr ?st"
    by (simp add: assignAll_closed [OF assms] emptyState_def)
  moreover have "shape ns ?st"
    unfolding shape_def
  proof (intro conjI ballI allI)
    show "set (roots ?st) = {nd \<in> set ns. isRoot ns nd}" by auto
    show "distinct (roots ?st)" using d by simp
    show "set (children ?st (node_id p)) = {c. (c, p) \<in> childOf ns}" if "p \<in> set ns" for p
      using children_of_index [OF that] by simp
    show "distinct (children ?st k)" for k using d by simp
  qed
  ultimately show ?thesis by simp
qed

subsection \<open>Grounded nodes\<close>

lemma childOf_in: "(c, p) \<in> childOf ns \<Longrightarrow> c \<in> set ns \<and> p \<in> set ns"
  by (simp add: childOf_def)

lemma childOf_trancl_in: "(c, p) \<in> (childOf ns)\<^sup>+ \<Longrightarrow> c \<in> set ns \<and> p \<in> set ns"
  by (induction rule: trancl.induct) (auto dest: childOf_in)

lemma grounded_in: "grounded ns nd \<Longrightarrow> nd \<in> set ns"
  by (induction rule: grounded.induct) (auto dest: childOf_in)

lemma root_no_parent: "isRoot ns nd \<Longrightarrow> (nd, p) \<notin> childOf ns"
  by (auto simp add: isRoot_def childOf_def)

lemma root_up: "isRoot ns nd \<Longrightarrow> up ns nd = {}"
  by (auto simp add: up_def dest: tranclD root_no_parent)

lemma trancl_first:
  assumes "single_valued r" and "(c, p) \<in> r" and "(c, a) \<in> r\<^sup>+"
  shows "a = p \<or> (p, a) \<in> r\<^sup>+"
proof -
  from assms(3) obtain z where z: "(c, z) \<in> r" "(z, a) \<in> r\<^sup>*" by (blast dest: tranclD)
  then have "z = p" using assms(1,2) by (blast dest: single_valuedD)
  then show ?thesis using z(2) by (auto simp add: rtrancl_eq_or_trancl)
qed

lemma child_up:
  assumes "distinct (map node_id ns)" and "(c, p) \<in> childOf ns"
  shows "up ns c = insert p (up ns p)"
proof -
  have sv: "single_valued (childOf ns)" by (rule childOf_single_valued [OF assms(1)])
  show ?thesis
    unfolding up_def
  proof (intro set_eqI iffI)
    fix a assume "a \<in> {a. (c, a) \<in> (childOf ns)\<^sup>+}"
    then show "a \<in> insert p {a. (p, a) \<in> (childOf ns)\<^sup>+}"
      using trancl_first [OF sv assms(2)] by blast
  next
    fix a assume "a \<in> insert p {a. (p, a) \<in> (childOf ns)\<^sup>+}"
    then show "a \<in> {a. (c, a) \<in> (childOf ns)\<^sup>+}"
      using assms(2) by (auto intro: trancl_into_trancl2)
  qed
qed

lemma grounded_acyclic:
  assumes "distinct (map node_id ns)" and "grounded ns nd"
  shows "(nd, nd) \<notin> (childOf ns)\<^sup>+"
  using assms(2)
proof (induction rule: grounded.induct)
  case (root nd)
  then show ?case using root_up [of ns nd] by (auto simp add: up_def)
next
  case (child nd p)
  have sv: "single_valued (childOf ns)" by (rule childOf_single_valued [OF assms(1)])
  show ?case
  proof
    assume "(nd, nd) \<in> (childOf ns)\<^sup>+"
    from trancl_first [OF sv child.hyps(1) this]
    have "(p, nd) \<in> (childOf ns)\<^sup>*" by auto
    then have "(p, p) \<in> (childOf ns)\<^sup>+"
      using child.hyps(1) by (rule rtrancl_into_trancl1)
    then show False using child.IH by simp
  qed
qed

lemma grounded_below:
  assumes "(m, p) \<in> (childOf ns)\<^sup>*" and "grounded ns p"
  shows "grounded ns m"
  using assms
proof (induction rule: converse_rtrancl_induct)
  case base
  then show ?case by simp
next
  case (step y z)
  then show ?case by (auto intro: grounded.child)
qed

lemma grounded_has_root:
  assumes "grounded ns m"
  shows "\<exists>r. r \<in> set ns \<and> isRoot ns r \<and> (m, r) \<in> (childOf ns)\<^sup>*"
  using assms
proof (induction rule: grounded.induct)
  case (root nd)
  then show ?case by blast
next
  case (child nd p)
  then obtain r where "r \<in> set ns" "isRoot ns r" "(p, r) \<in> (childOf ns)\<^sup>*" by blast
  then show ?case using child.hyps(1) by (blast intro: converse_rtrancl_into_rtrancl)
qed

lemma up_card:
  assumes "distinct (map node_id ns)" and "grounded ns nd"
  shows "card (up ns nd) < length ns"
proof -
  have "up ns nd \<subseteq> set ns - {nd}"
    using grounded_acyclic [OF assms] by (auto simp add: up_def dest: childOf_trancl_in)
  then have "card (up ns nd) \<le> card (set ns - {nd})"
    by (intro card_mono) auto
  also have "\<dots> < card (set ns)"
    using grounded_in [OF assms(2)] by (intro card_Diff1_less) auto
  also have "\<dots> \<le> length ns" by (rule card_length)
  finally show ?thesis .
qed

lemma child_up_card:
  assumes "distinct (map node_id ns)" and "(c, p) \<in> childOf ns" and "grounded ns p"
  shows "card (up ns c) = Suc (card (up ns p))"
proof -
  have "p \<notin> up ns p" using grounded_acyclic [OF assms(1,3)] by (simp add: up_def)
  moreover have "finite (up ns p)"
    by (rule finite_subset [of _ "set ns"]) (auto simp add: up_def dest: childOf_trancl_in)
  ultimately show ?thesis by (simp add: child_up [OF assms(1,2)])
qed

lemma below_cases:
  "(m, p) \<in> (childOf ns)\<^sup>* \<longleftrightarrow> m = p \<or> (\<exists>c. (m, c) \<in> (childOf ns)\<^sup>* \<and> (c, p) \<in> childOf ns)"
  by (auto elim: rtranclE intro: rtrancl_into_rtrancl)

subsection \<open>Sorting with the comparator\<close>

text \<open>
  The comparator decides the lexicographic order of \<open>(orderIndex, id)\<close>; therefore the
  sort that calls it is the stable sort by that key.
\<close>

lemma compareNodes_le: "compareNodes a b \<le> 0 \<longleftrightarrow> sortKey a \<le> sortKey b"
  by (auto simp add: compareNodes_def sortKey_def)

lemma compareNodes_zero: "compareNodes a b = 0 \<longleftrightarrow> sortKey a = sortKey b"
  by (auto simp add: compareNodes_def sortKey_def)

lemma insertBy_compareNodes: "insertBy compareNodes x ys = insort_key sortKey x ys"
  by (induction ys) (simp_all add: compareNodes_le)

lemma sortArray_sort_key: "sortArray xs = sort_key sortKey xs"
  by (induction xs) (simp_all add: sortArray_def sortBy_def insertBy_compareNodes)

subsection \<open>States that differ by sorting\<close>

lemma sortArray_idem: "sortArray (sortArray xs) = sortArray xs"
  by (simp add: sortArray_sort_key sort_key_id_if_sorted)

lemma sortedArr_sortArray: "sortedArr (sortArray xs)"
  by (simp add: sortedArr_def sortArray_sort_key)

lemma sortArray_sorted: "sortedArr xs \<Longrightarrow> sortArray xs = xs"
  by (simp add: sortedArr_def sortArray_sort_key sort_key_id_if_sorted)

lemma set_sortArray: "set (sortArray xs) = set xs"
  by (simp add: sortArray_sort_key)

lemma distinct_sortArray: "distinct (sortArray xs) = distinct xs"
  by (simp add: sortArray_sort_key)

lemma refines_refl: "refines st st"
  by (simp add: refines_def)

lemma refines_trans:
  assumes "refines a b" and "refines b c"
  shows "refines a c"
  unfolding refines_def
proof (intro conjI allI)
  show "roots c = roots a \<or> roots c = sortArray (roots a)"
    using assms sortArray_idem [of "roots a"] by (auto simp add: refines_def)
  show "children c k = children a k \<or> children c k = sortArray (children a k)" for k
  proof -
    have "children b k = children a k \<or> children b k = sortArray (children a k)"
      using assms(1) by (simp add: refines_def)
    moreover have "children c k = children b k \<or> children c k = sortArray (children b k)"
      using assms(2) by (simp add: refines_def)
    ultimately show ?thesis using sortArray_idem [of "children a k"] by auto
  qed
qed

lemma refines_setArr: "refines st (setArr st a (sortArray (getArr st a)))"
  by (cases a) (simp_all add: refines_def)

lemma refines_shape:
  assumes "refines st st'" and "shape ns st"
  shows "shape ns st'"
  unfolding shape_def
proof (intro conjI ballI allI)
  have r: "roots st' = roots st \<or> roots st' = sortArray (roots st)"
    using assms(1) by (simp add: refines_def)
  have c: "children st' k = children st k \<or> children st' k = sortArray (children st k)" for k
    using assms(1) by (simp add: refines_def)
  show "set (roots st') = {nd \<in> set ns. isRoot ns nd}"
    using r assms(2) by (auto simp add: shape_def set_sortArray)
  show "distinct (roots st')"
    using r assms(2) by (auto simp add: shape_def distinct_sortArray)
  show "set (children st' (node_id p)) = {c. (c, p) \<in> childOf ns}" if "p \<in> set ns" for p
  proof -
    have "set (children st' (node_id p)) = set (children st (node_id p))"
      using c [of "node_id p"] by (auto simp add: set_sortArray)
    then show ?thesis using assms(2) that by (simp add: shape_def)
  qed
  show "distinct (children st' k)" for k
    using c [of k] assms(2) by (auto simp add: shape_def distinct_sortArray)
qed

lemma refines_sorted_children:
  assumes "refines st st'" and "sortedArr (children st k)"
  shows "children st' k = children st k"
  using assms sortArray_sorted [OF assms(2)] by (auto simp add: refines_def)

lemma refines_sorted_roots:
  assumes "refines st st'" and "sortedArr (roots st)"
  shows "roots st' = roots st"
  using assms sortArray_sorted [OF assms(2)] by (auto simp add: refines_def)

lemma forEach_refines:
  assumes "\<And>x s s'. g x s = Some s' \<Longrightarrow> refines s s'" and "forEach g xs s = Some s'"
  shows "refines s s'"
  using assms(2)
proof (induction xs arbitrary: s)
  case Nil
  then show ?case by (simp add: refines_refl)
next
  case (Cons x xs)
  then obtain s1 where s1: "g x s = Some s1" "forEach g xs s1 = Some s'"
    by (auto split: option.splits)
  show ?case
    by (rule refines_trans [OF assms(1) [OF s1(1)] Cons.IH [OF s1(2)]])
qed

lemma sortNodes_refines: "sortNodes fuel a st = Some st' \<Longrightarrow> refines st st'"
proof (induction fuel arbitrary: a st st')
  case 0
  then show ?case by simp
next
  case (Suc fuel)
  let ?st1 = "setArr st a (sortArray (getArr st a))"
  have "forEach (\<lambda>nd. sortNodes fuel (ChildrenArr (node_id nd))) (getArr ?st1 a) ?st1 = Some st'"
    using Suc.prems by (simp add: Let_def)
  then have "refines ?st1 st'"
    by (rule forEach_refines [rotated]) (rule Suc.IH)
  then show ?case
    by (rule refines_trans [OF refines_setArr])
qed

subsection \<open>sortNodes returns and sorts\<close>

lemma forEach_sorts:
  assumes step: "\<And>c s. grounded ns c \<Longrightarrow> shape ns s \<Longrightarrow> length ns \<le> card (up ns c) + f \<Longrightarrow>
      \<exists>s'. sortNodes f (ChildrenArr (node_id c)) s = Some s' \<and>
        (\<forall>m. (m, c) \<in> (childOf ns)\<^sup>* \<longrightarrow> sortedArr (children s' (node_id m)))"
    and xs: "\<forall>x \<in> set xs. grounded ns x \<and> length ns \<le> card (up ns x) + f"
    and sh: "shape ns s"
  shows "\<exists>s'. forEach (\<lambda>nd. sortNodes f (ChildrenArr (node_id nd))) xs s = Some s' \<and>
      (\<forall>x \<in> set xs. \<forall>m. (m, x) \<in> (childOf ns)\<^sup>* \<longrightarrow> sortedArr (children s' (node_id m)))"
  using xs sh
proof (induction xs arbitrary: s)
  case Nil
  show ?case by simp
next
  case (Cons x xs)
  let ?g = "\<lambda>nd. sortNodes f (ChildrenArr (node_id nd))"
  have gx: "grounded ns x" "length ns \<le> card (up ns x) + f" using Cons.prems(1) by auto
  from step [OF gx(1) Cons.prems(2) gx(2)] obtain s1 where
    s1: "sortNodes f (ChildrenArr (node_id x)) s = Some s1"
    and b1: "\<forall>m. (m, x) \<in> (childOf ns)\<^sup>* \<longrightarrow> sortedArr (children s1 (node_id m))"
    by blast
  have sh1: "shape ns s1"
    by (rule refines_shape [OF sortNodes_refines [OF s1] Cons.prems(2)])
  have xs': "\<forall>x \<in> set xs. grounded ns x \<and> length ns \<le> card (up ns x) + f"
    using Cons.prems(1) by simp
  from Cons.IH [OF xs' sh1] obtain s' where
    s': "forEach ?g xs s1 = Some s'"
    and b': "\<forall>x \<in> set xs. \<forall>m. (m, x) \<in> (childOf ns)\<^sup>* \<longrightarrow> sortedArr (children s' (node_id m))"
    by blast
  have r: "refines s1 s'"
    using s' by (rule forEach_refines [rotated]) (rule sortNodes_refines)
  have "sortedArr (children s' (node_id m))" if "(m, x) \<in> (childOf ns)\<^sup>*" for m
  proof -
    have "sortedArr (children s1 (node_id m))" using b1 that by blast
    then show ?thesis using refines_sorted_children [OF r] by simp
  qed
  then have "\<forall>y \<in> set (x # xs). \<forall>m. (m, y) \<in> (childOf ns)\<^sup>* \<longrightarrow> sortedArr (children s' (node_id m))"
    using b' by simp
  moreover have "forEach ?g (x # xs) s = Some s'" using s1 s' by simp
  ultimately show ?case by blast
qed

lemma sortNodes_children:
  assumes d: "distinct (map node_id ns)"
  shows "grounded ns p \<Longrightarrow> shape ns st \<Longrightarrow> length ns \<le> card (up ns p) + f \<Longrightarrow>
     \<exists>st'. sortNodes f (ChildrenArr (node_id p)) st = Some st' \<and>
       (\<forall>m. (m, p) \<in> (childOf ns)\<^sup>* \<longrightarrow> sortedArr (children st' (node_id m)))"
proof (induction f arbitrary: p st)
  case 0
  then show ?case using up_card [OF d "0.prems"(1)] by simp
next
  case (Suc f)
  let ?k = "node_id p"
  let ?xs = "sortArray (children st ?k)"
  let ?st1 = "setArr st (ChildrenArr ?k) ?xs"
  let ?g = "\<lambda>nd. sortNodes f (ChildrenArr (node_id nd))"
  have pin: "p \<in> set ns" by (rule grounded_in [OF Suc.prems(1)])
  have sh1: "shape ns ?st1"
    using refines_shape [OF refines_setArr [of st "ChildrenArr ?k"] Suc.prems(2)] by simp
  have kids: "set ?xs = {c. (c, p) \<in> childOf ns}"
    using Suc.prems(2) pin by (simp add: shape_def set_sortArray)
  have xs: "\<forall>x \<in> set ?xs. grounded ns x \<and> length ns \<le> card (up ns x) + f"
  proof
    fix x assume "x \<in> set ?xs"
    then have c: "(x, p) \<in> childOf ns" using kids by simp
    have "grounded ns x" by (rule grounded.child [OF c Suc.prems(1)])
    moreover have "card (up ns x) = Suc (card (up ns p))"
      by (rule child_up_card [OF d c Suc.prems(1)])
    ultimately show "grounded ns x \<and> length ns \<le> card (up ns x) + f"
      using Suc.prems(3) by simp
  qed
  from forEach_sorts [of ns f ?xs ?st1, OF Suc.IH xs sh1] obtain s' where
    s': "forEach ?g ?xs ?st1 = Some s'"
    and b': "\<forall>x \<in> set ?xs. \<forall>m. (m, x) \<in> (childOf ns)\<^sup>* \<longrightarrow> sortedArr (children s' (node_id m))"
    by blast
  have run: "sortNodes (Suc f) (ChildrenArr ?k) st = Some s'"
    using s' by (simp add: Let_def)
  have r: "refines ?st1 s'"
    using s' by (rule forEach_refines [rotated]) (rule sortNodes_refines)
  have own: "sortedArr (children s' ?k)"
  proof -
    have "sortedArr (children ?st1 ?k)" by (simp add: sortedArr_sortArray)
    then show ?thesis using refines_sorted_children [OF r] by simp
  qed
  have "sortedArr (children s' (node_id m))" if "(m, p) \<in> (childOf ns)\<^sup>*" for m
  proof -
    from that have "m = p \<or> (\<exists>c. (m, c) \<in> (childOf ns)\<^sup>* \<and> (c, p) \<in> childOf ns)"
      by (simp add: below_cases [symmetric])
    then show ?thesis using own b' kids by auto
  qed
  then show ?case using run by blast
qed

lemma sortNodes_roots:
  assumes d: "distinct (map node_id ns)" and sh: "shape ns st" and f: "length ns \<le> f"
  shows "\<exists>st'. sortNodes (Suc f) RootsArr st = Some st' \<and> roots st' = sortArray (roots st) \<and>
       (\<forall>m. grounded ns m \<longrightarrow> sortedArr (children st' (node_id m)))"
proof -
  let ?xs = "sortArray (roots st)"
  let ?st1 = "setArr st RootsArr ?xs"
  let ?g = "\<lambda>nd. sortNodes f (ChildrenArr (node_id nd))"
  have sh1: "shape ns ?st1"
    using refines_shape [OF refines_setArr [of st RootsArr] sh] by simp
  have rs: "set ?xs = {nd \<in> set ns. isRoot ns nd}"
    using sh by (simp add: shape_def set_sortArray)
  have xs: "\<forall>x \<in> set ?xs. grounded ns x \<and> length ns \<le> card (up ns x) + f"
    using rs f by (auto intro: grounded.root simp add: root_up)
  have step: "\<And>c s. grounded ns c \<Longrightarrow> shape ns s \<Longrightarrow> length ns \<le> card (up ns c) + f \<Longrightarrow>
      \<exists>s'. sortNodes f (ChildrenArr (node_id c)) s = Some s' \<and>
        (\<forall>m. (m, c) \<in> (childOf ns)\<^sup>* \<longrightarrow> sortedArr (children s' (node_id m)))"
    by (rule sortNodes_children [OF d])
  from forEach_sorts [of ns f ?xs ?st1, OF step xs sh1] obtain s' where
    s': "forEach ?g ?xs ?st1 = Some s'"
    and b': "\<forall>x \<in> set ?xs. \<forall>m. (m, x) \<in> (childOf ns)\<^sup>* \<longrightarrow> sortedArr (children s' (node_id m))"
    by blast
  have run: "sortNodes (Suc f) RootsArr st = Some s'"
    using s' by (simp add: Let_def)
  have r: "refines ?st1 s'"
    using s' by (rule forEach_refines [rotated]) (rule sortNodes_refines)
  have "sortedArr (roots ?st1)" by (simp add: sortedArr_sortArray)
  then have own: "roots s' = ?xs" using refines_sorted_roots [OF r] by simp
  have "sortedArr (children s' (node_id m))" if "grounded ns m" for m
  proof -
    from grounded_has_root [OF that] obtain r where
      "r \<in> set ns" "isRoot ns r" "(m, r) \<in> (childOf ns)\<^sup>*" by blast
    then show ?thesis using b' rs by blast
  qed
  then show ?thesis using run own by blast
qed

subsection \<open>Serialising\<close>

lemma those_map_Some:
  "those (map f xs) = Some ys \<longleftrightarrow> list_all2 (\<lambda>x y. f x = Some y) xs ys"
proof (induction xs arbitrary: ys)
  case Nil
  show ?case by auto
next
  case (Cons x xs)
  show ?case
  proof (cases "f x")
    case None
    then show ?thesis by (auto simp add: list_all2_Cons1)
  next
    case (Some a)
    have "those (map f (x # xs)) = Some ys \<longleftrightarrow> (\<exists>zs. those (map f xs) = Some zs \<and> ys = a # zs)"
      using Some by (cases "those (map f xs)") auto
    also have "\<dots> \<longleftrightarrow> (\<exists>zs. list_all2 (\<lambda>x y. f x = Some y) xs zs \<and> ys = a # zs)"
      by (simp add: Cons.IH)
    also have "\<dots> \<longleftrightarrow> list_all2 (\<lambda>x y. f x = Some y) (x # xs) ys"
      using Some by (auto simp add: list_all2_Cons1)
    finally show ?thesis .
  qed
qed

lemma those_map_total:
  assumes "\<forall>x \<in> set xs. \<exists>y. f x = Some y"
  shows "\<exists>ys. those (map f xs) = Some ys"
  using assms
proof (induction xs)
  case Nil
  show ?case by simp
next
  case (Cons x xs)
  then obtain y ys where "f x = Some y" "those (map f xs) = Some ys" by auto
  then show ?case by simp
qed

lemma toTree_Suc:
  "toTree (Suc f) st p = Some t \<longleftrightarrow>
     (\<exists>ts. t = Tree p ts \<and> list_all2 (\<lambda>c t'. toTree f st c = Some t') (children st (node_id p)) ts)"
  by (auto simp add: those_map_Some)

lemma list_all2_left: "list_all2 P xs ys \<Longrightarrow> x \<in> set xs \<Longrightarrow> \<exists>y \<in> set ys. P x y"
  by (induction rule: list_all2_induct) auto

lemma list_all2_right: "list_all2 P xs ys \<Longrightarrow> y \<in> set ys \<Longrightarrow> \<exists>x \<in> set xs. P x y"
  by (induction rule: list_all2_induct) auto

lemma toTree_label: "toTree f st p = Some t \<Longrightarrow> label t = p"
  by (cases f) auto

lemma toTree_kids: "toTree f st p = Some t \<Longrightarrow> map label (kids t) = children st (node_id p)"
proof (cases f)
  case 0
  assume "toTree f st p = Some t"
  then show ?thesis using 0 by simp
next
  case (Suc f')
  assume "toTree f st p = Some t"
  then have "toTree (Suc f') st p = Some t" using Suc by simp
  then obtain ts where t: "t = Tree p ts"
    and l: "list_all2 (\<lambda>c t'. toTree f' st c = Some t') (children st (node_id p)) ts"
    unfolding toTree_Suc by blast
  from l have "list_all2 (\<lambda>c t'. c = label t') (children st (node_id p)) ts"
    by (rule list_all2_mono) (simp add: toTree_label)
  then have "children st (node_id p) = map label ts"
    by (induction rule: list_all2_induct) auto
  then show ?thesis using t by simp
qed

lemma toJSON_labels: "toJSON f st = Some forest \<Longrightarrow> map label forest = roots st"
proof -
  assume "toJSON f st = Some forest"
  then have "list_all2 (\<lambda>c t'. toTree f st c = Some t') (roots st) forest"
    by (simp add: toJSON_def those_map_Some)
  then have "list_all2 (\<lambda>c t'. c = label t') (roots st) forest"
    by (rule list_all2_mono) (simp add: toTree_label)
  then have "roots st = map label forest"
    by (induction rule: list_all2_induct) auto
  then show ?thesis by simp
qed

lemma nodes_union:
  assumes l: "list_all2 (\<lambda>c t'. Q c t') cs ts"
    and n: "\<And>c t'. c \<in> set cs \<Longrightarrow> Q c t' \<Longrightarrow> set (nodesOf t') = D c"
  shows "set (concat (map nodesOf ts)) = (\<Union>c \<in> set cs. D c)"
  using l n
proof (induction rule: list_all2_induct)
  case Nil
  show ?case by simp
next
  case (Cons c cs t' ts)
  have "set (nodesOf t') = D c" using Cons.prems Cons.hyps(1) by simp
  moreover have "set (concat (map nodesOf ts)) = (\<Union>c \<in> set cs. D c)"
    using Cons.prems by (intro Cons.IH) simp
  ultimately show ?case by simp
qed

lemma toTree_nodes:
  assumes sh: "shape ns st"
  shows "p \<in> set ns \<Longrightarrow> toTree f st p = Some t \<Longrightarrow> set (nodesOf t) = {m. (m, p) \<in> (childOf ns)\<^sup>*}"
proof (induction f arbitrary: p t)
  case 0
  then show ?case by simp
next
  case (Suc f)
  let ?cs = "children st (node_id p)"
  from Suc.prems(2) obtain ts where t: "t = Tree p ts"
    and l: "list_all2 (\<lambda>c t'. toTree f st c = Some t') ?cs ts"
    unfolding toTree_Suc by blast
  have kids: "set ?cs = {c. (c, p) \<in> childOf ns}"
    using sh Suc.prems(1) by (simp add: shape_def)
  have "set (concat (map nodesOf ts)) = (\<Union>c \<in> set ?cs. {m. (m, c) \<in> (childOf ns)\<^sup>*})"
  proof (rule nodes_union [OF l])
    fix c t' assume "c \<in> set ?cs" "toTree f st c = Some t'"
    moreover from this kids have "c \<in> set ns" by (auto dest: childOf_in)
    ultimately show "set (nodesOf t') = {m. (m, c) \<in> (childOf ns)\<^sup>*}"
      using Suc.IH by blast
  qed
  then have "set (nodesOf t) = {p} \<union> {m. \<exists>c. (m, c) \<in> (childOf ns)\<^sup>* \<and> (c, p) \<in> childOf ns}"
    using t kids by auto
  also have "\<dots> = {m. (m, p) \<in> (childOf ns)\<^sup>*}"
    using below_cases [of _ p ns] by auto
  finally show ?case .
qed

lemma toTree_total:
  assumes d: "distinct (map node_id ns)" and sh: "shape ns st"
  shows "grounded ns p \<Longrightarrow> length ns \<le> card (up ns p) + f \<Longrightarrow> \<exists>t. toTree f st p = Some t"
proof (induction f arbitrary: p)
  case 0
  then show ?case using up_card [OF d "0.prems"(1)] by simp
next
  case (Suc f)
  let ?cs = "children st (node_id p)"
  have pin: "p \<in> set ns" by (rule grounded_in [OF Suc.prems(1)])
  have kids: "set ?cs = {c. (c, p) \<in> childOf ns}"
    using sh pin by (simp add: shape_def)
  have "\<forall>c \<in> set ?cs. \<exists>t. toTree f st c = Some t"
  proof
    fix c assume "c \<in> set ?cs"
    then have c: "(c, p) \<in> childOf ns" using kids by simp
    have "grounded ns c" by (rule grounded.child [OF c Suc.prems(1)])
    moreover have "card (up ns c) = Suc (card (up ns p))"
      by (rule child_up_card [OF d c Suc.prems(1)])
    ultimately show "\<exists>t. toTree f st c = Some t"
      using Suc.prems(2) by (intro Suc.IH) simp_all
  qed
  from those_map_total [OF this] show ?case by auto
qed

lemma siblings_disjoint:
  assumes d: "distinct (map node_id ns)" and g: "grounded ns p"
    and c: "(c, p) \<in> childOf ns" and c': "(c', p) \<in> childOf ns" and ne: "c \<noteq> c'"
  shows "{m. (m, c) \<in> (childOf ns)\<^sup>*} \<inter> {m. (m, c') \<in> (childOf ns)\<^sup>*} = {}"
proof -
  have sv: "single_valued (childOf ns)" by (rule childOf_single_valued [OF d])
  have no: "False" if "(a, b) \<in> (childOf ns)\<^sup>*" "(a, p) \<in> childOf ns" "(b, p) \<in> childOf ns" "a \<noteq> b" for a b
  proof -
    from that(1,4) have "(a, b) \<in> (childOf ns)\<^sup>+" by (auto simp add: rtrancl_eq_or_trancl)
    from trancl_first [OF sv that(2) this] have "(p, b) \<in> (childOf ns)\<^sup>*"
      by (auto simp add: rtrancl_eq_or_trancl)
    then have "(p, p) \<in> (childOf ns)\<^sup>+" using that(3) by (rule rtrancl_into_trancl1)
    then show False using grounded_acyclic [OF d g] by simp
  qed
  show ?thesis
  proof (rule ccontr)
    assume "{m. (m, c) \<in> (childOf ns)\<^sup>*} \<inter> {m. (m, c') \<in> (childOf ns)\<^sup>*} \<noteq> {}"
    then obtain m where "(m, c) \<in> (childOf ns)\<^sup>*" "(m, c') \<in> (childOf ns)\<^sup>*" by blast
    from single_valued_confluent [OF sv this]
    show False using no [of c c'] no [of c' c] c c' ne by blast
  qed
qed

lemma distinct_forest:
  assumes l: "list_all2 (\<lambda>c t'. Q c t') cs ts" and dc: "distinct cs"
    and n: "\<And>c t'. c \<in> set cs \<Longrightarrow> Q c t' \<Longrightarrow> set (nodesOf t') = D c \<and> distinct (nodesOf t')"
    and dj: "\<And>c c'. c \<in> set cs \<Longrightarrow> c' \<in> set cs \<Longrightarrow> c \<noteq> c' \<Longrightarrow> D c \<inter> D c' = {}"
  shows "distinct (concat (map nodesOf ts))"
  using l dc n dj
proof (induction rule: list_all2_induct)
  case Nil
  show ?case by simp
next
  case (Cons c cs t' ts)
  have a: "set (nodesOf t') = D c" "distinct (nodesOf t')"
    using Cons.prems(2) [of c t'] Cons.hyps(1) by simp_all
  have b: "distinct (concat (map nodesOf ts))"
  proof (rule Cons.IH)
    show "distinct cs" using Cons.prems(1) by simp
    show "set (nodesOf t') = D c \<and> distinct (nodesOf t')" if "c \<in> set cs" "Q c t'" for c t'
      using Cons.prems(2) [of c t'] that by simp
    show "D c \<inter> D c' = {}" if "c \<in> set cs" "c' \<in> set cs" "c \<noteq> c'" for c c'
      using Cons.prems(3) that by simp
  qed
  have "set (concat (map nodesOf ts)) = (\<Union>c \<in> set cs. D c)"
    using Cons.hyps(2) Cons.prems(2) by (intro nodes_union [of Q]) simp_all
  moreover have "D c \<inter> D c' = {}" if "c' \<in> set cs" for c'
    using Cons.prems(1,3) that by auto
  ultimately have "set (nodesOf t') \<inter> set (concat (map nodesOf ts)) = {}"
    using a(1) by auto
  then show ?case using a(2) b by simp
qed

lemma toTree_distinct:
  assumes d: "distinct (map node_id ns)" and sh: "shape ns st"
  shows "grounded ns p \<Longrightarrow> toTree f st p = Some t \<Longrightarrow> distinct (nodesOf t)"
proof (induction f arbitrary: p t)
  case 0
  then show ?case by simp
next
  case (Suc f)
  let ?cs = "children st (node_id p)"
  let ?D = "\<lambda>c. {m. (m, c) \<in> (childOf ns)\<^sup>*}"
  from Suc.prems(2) obtain ts where t: "t = Tree p ts"
    and l: "list_all2 (\<lambda>c t'. toTree f st c = Some t') ?cs ts"
    unfolding toTree_Suc by blast
  have pin: "p \<in> set ns" by (rule grounded_in [OF Suc.prems(1)])
  have kids: "set ?cs = {c. (c, p) \<in> childOf ns}"
    using sh pin by (simp add: shape_def)
  have dc: "distinct ?cs" using sh by (simp add: shape_def)
  have sub: "set (nodesOf t') = ?D c \<and> distinct (nodesOf t')"
    if "c \<in> set ?cs" "toTree f st c = Some t'" for c t'
  proof -
    have c: "(c, p) \<in> childOf ns" using that(1) kids by simp
    have g: "grounded ns c" by (rule grounded.child [OF c Suc.prems(1)])
    show ?thesis
      using toTree_nodes [OF sh grounded_in [OF g] that(2)] Suc.IH [OF g that(2)] by simp
  qed
  have dj: "?D c \<inter> ?D c' = {}" if "c \<in> set ?cs" "c' \<in> set ?cs" "c \<noteq> c'" for c c'
    using siblings_disjoint [OF d Suc.prems(1) _ _ that(3)] that(1,2) kids by simp
  have a: "distinct (concat (map nodesOf ts))"
    by (rule distinct_forest [OF l dc sub dj])
  have "set (concat (map nodesOf ts)) = (\<Union>c \<in> set ?cs. ?D c)"
    using l sub by (intro nodes_union [of "\<lambda>c t'. toTree f st c = Some t'"]) simp_all
  moreover have "p \<notin> ?D c" if "c \<in> set ?cs" for c
  proof
    assume "p \<in> ?D c"
    then have "(p, c) \<in> (childOf ns)\<^sup>*" by simp
    moreover have "(c, p) \<in> childOf ns" using that kids by simp
    ultimately have "(p, p) \<in> (childOf ns)\<^sup>+" by (rule rtrancl_into_trancl1)
    then show False using grounded_acyclic [OF d Suc.prems(1)] by simp
  qed
  ultimately have "p \<notin> set (concat (map nodesOf ts))" by blast
  then show ?case using a t by simp
qed

subsection \<open>Order of siblings\<close>

lemma compareNodes_key: "compareNodes a b < 0 \<longleftrightarrow> sortKey a < sortKey b"
  by (auto simp add: compareNodes_def sortKey_def)

lemma sortedArr_strict:
  assumes "sortedArr xs" and "distinct (map node_id xs)"
  shows "sorted_wrt (\<lambda>a b. compareNodes a b < 0) xs"
proof -
  have "distinct xs" "inj_on node_id (set xs)" using assms(2) by (simp_all add: distinct_map)
  then have "inj_on sortKey (set xs)"
    by (auto simp add: inj_on_def sortKey_def)
  then have "distinct (map sortKey xs)" using \<open>distinct xs\<close> by (simp add: distinct_map)
  then have "sorted_wrt (<) (map sortKey xs)"
    using assms(1) by (simp add: strict_sorted_iff sortedArr_def)
  then show ?thesis by (simp add: sorted_wrt_map compareNodes_key)
qed

lemma distinct_ids_sub:
  assumes "distinct (map node_id ns)" and "distinct xs" and "set xs \<subseteq> set ns"
  shows "distinct (map node_id xs)"
proof -
  have "inj_on node_id (set ns)" using assms(1) by (simp add: distinct_map)
  then have "inj_on node_id (set xs)" using assms(3) by (rule inj_on_subset)
  then show ?thesis using assms(2) by (simp add: distinct_map)
qed

lemma orderedForest_Cons: "orderedForest (t # ts) \<longleftrightarrow> orderedForest [t] \<and> orderedForest ts"
  by (cases t) simp

lemma orderedForest_all: "(\<forall>t \<in> set ts. orderedForest [t]) \<Longrightarrow> orderedForest ts"
proof (induction ts)
  case Nil
  show ?case by simp
next
  case (Cons t ts)
  then show ?case using orderedForest_Cons [of t ts] by simp
qed

lemma toTree_ordered:
  assumes d: "distinct (map node_id ns)" and sh: "shape ns st"
  shows "p \<in> set ns \<Longrightarrow> \<forall>m. (m, p) \<in> (childOf ns)\<^sup>* \<longrightarrow> sortedArr (children st (node_id m)) \<Longrightarrow>
     toTree f st p = Some t \<Longrightarrow> orderedForest [t]"
proof (induction f arbitrary: p t)
  case 0
  then show ?case by simp
next
  case (Suc f)
  let ?cs = "children st (node_id p)"
  from Suc.prems(3) obtain ts where t: "t = Tree p ts"
    and l: "list_all2 (\<lambda>c t'. toTree f st c = Some t') ?cs ts"
    unfolding toTree_Suc by blast
  have kids: "set ?cs = {c. (c, p) \<in> childOf ns}"
    using sh Suc.prems(1) by (simp add: shape_def)
  have lab: "map label ts = ?cs"
    using toTree_kids [OF Suc.prems(3)] t by simp
  have "distinct ?cs" using sh by (simp add: shape_def)
  moreover have "set ?cs \<subseteq> set ns" using kids by (auto dest: childOf_in)
  ultimately have "distinct (map node_id ?cs)" by (rule distinct_ids_sub [OF d])
  moreover have "sortedArr ?cs" using Suc.prems(2) by blast
  ultimately have a: "siblingsSorted ts"
    unfolding siblingsSorted_def lab by (rule sortedArr_strict [rotated])
  have "orderedForest [t']" if "t' \<in> set ts" for t'
  proof -
    from list_all2_right [OF l that] obtain c where c: "c \<in> set ?cs" "toTree f st c = Some t'"
      by blast
    then have cp: "(c, p) \<in> childOf ns" using kids by simp
    have "\<forall>m. (m, c) \<in> (childOf ns)\<^sup>* \<longrightarrow> sortedArr (children st (node_id m))"
      using Suc.prems(2) cp by (blast intro: rtrancl_into_rtrancl)
    then show ?thesis using Suc.IH [OF _ _ c(2)] cp by (blast dest: childOf_in)
  qed
  then have "orderedForest ts" by (intro orderedForest_all) simp
  then show ?case using a t by simp
qed

subsection \<open>The result of buildSectionsTree\<close>

lemma roots_disjoint:
  assumes d: "distinct (map node_id ns)" and r: "isRoot ns r" and r': "isRoot ns r'" and ne: "r \<noteq> r'"
  shows "{m. (m, r) \<in> (childOf ns)\<^sup>*} \<inter> {m. (m, r') \<in> (childOf ns)\<^sup>*} = {}"
proof -
  have sv: "single_valued (childOf ns)" by (rule childOf_single_valued [OF d])
  have no: "False" if "(a, b) \<in> (childOf ns)\<^sup>*" "isRoot ns a" "a \<noteq> b" for a b
  proof -
    from that(1,3) have "(a, b) \<in> (childOf ns)\<^sup>+" by (auto simp add: rtrancl_eq_or_trancl)
    then show False using root_no_parent [OF that(2)] by (blast dest: tranclD)
  qed
  show ?thesis
  proof (rule ccontr)
    assume "{m. (m, r) \<in> (childOf ns)\<^sup>*} \<inter> {m. (m, r') \<in> (childOf ns)\<^sup>*} \<noteq> {}"
    then obtain m where "(m, r) \<in> (childOf ns)\<^sup>*" "(m, r') \<in> (childOf ns)\<^sup>*" by blast
    from single_valued_confluent [OF sv this]
    show False using no [of r r'] no [of r' r] r r' ne by blast
  qed
qed

lemma grounded_iff:
  "grounded ns m \<longleftrightarrow> (\<exists>r. r \<in> set ns \<and> isRoot ns r \<and> (m, r) \<in> (childOf ns)\<^sup>*)"
  using grounded_has_root [of ns m] grounded_below [of m _ ns] grounded.root [of _ ns] by blast

text \<open>What a serialised state holds, for any fuel.\<close>

lemma toJSON_nodes:
  assumes d: "distinct (map node_id ns)" and sh: "shape ns st" and j: "toJSON f st = Some forest"
  shows "set (forestNodes forest) = {m. grounded ns m}" and "distinct (forestNodes forest)"
proof -
  let ?D = "\<lambda>c. {m. (m, c) \<in> (childOf ns)\<^sup>*}"
  have l: "list_all2 (\<lambda>c t'. toTree f st c = Some t') (roots st) forest"
    using j by (simp add: toJSON_def those_map_Some)
  have rs: "set (roots st) = {nd \<in> set ns. isRoot ns nd}" and dr: "distinct (roots st)"
    using sh by (simp_all add: shape_def)
  have sub: "set (nodesOf t') = ?D c \<and> distinct (nodesOf t')"
    if "c \<in> set (roots st)" "toTree f st c = Some t'" for c t'
  proof -
    have c: "c \<in> set ns" "isRoot ns c" using that(1) rs by simp_all
    have g: "grounded ns c" by (rule grounded.root [OF c])
    show ?thesis
      using toTree_nodes [OF sh c(1) that(2)] toTree_distinct [OF d sh g that(2)] by simp
  qed
  have dj: "?D c \<inter> ?D c' = {}" if "c \<in> set (roots st)" "c' \<in> set (roots st)" "c \<noteq> c'" for c c'
    using roots_disjoint [OF d _ _ that(3)] that(1,2) rs by simp
  show "distinct (forestNodes forest)"
    unfolding forestNodes_def by (rule distinct_forest [OF l dr sub dj])
  have "set (forestNodes forest) = (\<Union>c \<in> set (roots st). ?D c)"
    unfolding forestNodes_def
    using l sub by (intro nodes_union [of "\<lambda>c t'. toTree f st c = Some t'"]) simp_all
  also have "\<dots> = {m. grounded ns m}"
    using rs by (auto simp add: grounded_iff)
  finally show "set (forestNodes forest) = {m. grounded ns m}" .
qed

lemma assign_never_throws:
  "\<exists>st. assignAll (indexRows rows) (map snd (indexRows rows)) emptyState = Inr st
     \<and> shape (map snd (indexRows rows)) st
     \<and> roots st = filter (isRoot (map snd (indexRows rows))) (map snd (indexRows rows))"
  using assignAll_shape [of "indexRows rows" "map snd (indexRows rows)"] indexRows_props [of rows]
  by blast

lemma index_distinct: "distinct (map node_id (map snd (indexRows rows)))"
  using index_nodes(1) [of "indexRows rows" "map snd (indexRows rows)"] indexRows_props [of rows]
  by blast

lemma buildSectionsTree_Some:
  assumes "buildSectionsTree fuel rows = Some r"
  shows "\<exists>st0 st. r = Inr st \<and> shape (map snd (indexRows rows)) st0 \<and>
     roots st0 = filter (isRoot (map snd (indexRows rows))) (map snd (indexRows rows)) \<and>
     sortNodes fuel RootsArr st0 = Some st \<and> shape (map snd (indexRows rows)) st"
proof -
  from assign_never_throws [of rows] obtain st0 where
    a: "assignAll (indexRows rows) (map snd (indexRows rows)) emptyState = Inr st0"
    and sh: "shape (map snd (indexRows rows)) st0"
    and r0: "roots st0 = filter (isRoot (map snd (indexRows rows))) (map snd (indexRows rows))"
    by blast
  from assms a obtain st where s: "sortNodes fuel RootsArr st0 = Some st" and r: "r = Inr st"
    by (auto simp add: buildSectionsTree_def Let_def)
  have "shape (map snd (indexRows rows)) st"
    by (rule refines_shape [OF sortNodes_refines [OF s] sh])
  then show ?thesis using sh r0 s r by blast
qed

lemma sectionsTree_no_error: "sectionsTree fuel rows \<noteq> Some (Inl e)"
proof
  assume "sectionsTree fuel rows = Some (Inl e)"
  then obtain r where "buildSectionsTree fuel rows = Some r" "\<not> (\<exists>st. r = Inr st)"
    by (auto simp add: sectionsTree_def split: option.splits sum.splits)
  then show False using buildSectionsTree_Some by blast
qed

lemma sectionsTree_nodes:
  assumes "sectionsTree fuel rows = Some (Inr forest)"
  shows "set (forestNodes forest) = {m. grounded (map snd (indexRows rows)) m}"
    and "distinct (forestNodes forest)"
    and "set (map label forest) = {nd \<in> set (map snd (indexRows rows)). isRoot (map snd (indexRows rows)) nd}"
proof -
  let ?ns = "map snd (indexRows rows)"
  from assms obtain r where b: "buildSectionsTree fuel rows = Some r"
    by (auto simp add: sectionsTree_def split: option.splits)
  from buildSectionsTree_Some [OF b] obtain st where r: "r = Inr st" and sh: "shape ?ns st"
    by blast
  have j: "toJSON fuel st = Some forest"
    using assms b r by (auto simp add: sectionsTree_def)
  show "set (forestNodes forest) = {m. grounded ?ns m}"
    by (rule toJSON_nodes(1) [OF index_distinct sh j])
  show "distinct (forestNodes forest)"
    by (rule toJSON_nodes(2) [OF index_distinct sh j])
  show "set (map label forest) = {nd \<in> set ?ns. isRoot ?ns nd}"
    using toJSON_labels [OF j] sh by (simp add: shape_def)
qed

text \<open>With more fuel than rows the tree is returned.\<close>

lemma sectionsTree_total:
  assumes "length rows < fuel"
  shows "\<exists>forest. sectionsTree fuel rows = Some (Inr forest)
     \<and> map label forest = sortArray (filter (isRoot (map snd (indexRows rows))) (map snd (indexRows rows)))
     \<and> siblingsSorted forest \<and> orderedForest forest"
proof -
  let ?ns = "map snd (indexRows rows)"
  have d: "distinct (map node_id ?ns)" by (rule index_distinct)
  from assign_never_throws [of rows] obtain st0 where
    a: "assignAll (indexRows rows) ?ns emptyState = Inr st0"
    and sh0: "shape ?ns st0" and r0: "roots st0 = filter (isRoot ?ns) ?ns"
    by blast
  from assms obtain f where f: "fuel = Suc f" "length rows \<le> f" by (cases fuel) auto
  have len: "length ?ns \<le> f" using indexRows_props [of rows] f(2) by simp
  from sortNodes_roots [OF d sh0 len] obtain st where
    s: "sortNodes (Suc f) RootsArr st0 = Some st" and rs: "roots st = sortArray (roots st0)"
    and srt: "\<forall>m. grounded ?ns m \<longrightarrow> sortedArr (children st (node_id m))"
    by blast
  have sh: "shape ?ns st" by (rule refines_shape [OF sortNodes_refines [OF s] sh0])
  have b: "buildSectionsTree fuel rows = Some (Inr st)"
    using a s f(1) by (simp add: buildSectionsTree_def)
  have rt: "set (roots st) = {nd \<in> set ?ns. isRoot ?ns nd}" using sh by (simp add: shape_def)
  have "\<forall>c \<in> set (roots st). \<exists>t. toTree fuel st c = Some t"
  proof
    fix c assume "c \<in> set (roots st)"
    then have c: "c \<in> set ?ns" "isRoot ?ns c" using rt by simp_all
    have "grounded ?ns c" by (rule grounded.root [OF c])
    then show "\<exists>t. toTree fuel st c = Some t"
      using len f(1) by (intro toTree_total [OF d sh]) simp_all
  qed
  from those_map_total [OF this] obtain forest where j: "toJSON fuel st = Some forest"
    by (auto simp add: toJSON_def)
  have res: "sectionsTree fuel rows = Some (Inr forest)"
    using b j by (simp add: sectionsTree_def)
  have lab: "map label forest = roots st" by (rule toJSON_labels [OF j])
  have l: "list_all2 (\<lambda>c t'. toTree fuel st c = Some t') (roots st) forest"
    using j by (simp add: toJSON_def those_map_Some)
  have "distinct (roots st)" using sh by (simp add: shape_def)
  moreover have "set (roots st) \<subseteq> set ?ns" using rt by auto
  ultimately have "distinct (map node_id (roots st))" by (rule distinct_ids_sub [OF d])
  moreover have "sortedArr (roots st)" unfolding rs by (rule sortedArr_sortArray)
  ultimately have ss: "siblingsSorted forest"
    unfolding siblingsSorted_def lab by (rule sortedArr_strict [rotated])
  have "orderedForest [t']" if "t' \<in> set forest" for t'
  proof -
    from list_all2_right [OF l that] obtain c where c: "c \<in> set (roots st)" "toTree fuel st c = Some t'"
      by blast
    then have cr: "c \<in> set ?ns" "isRoot ?ns c" using rt by simp_all
    have g: "grounded ?ns c" by (rule grounded.root [OF cr])
    have "\<forall>m. (m, c) \<in> (childOf ?ns)\<^sup>* \<longrightarrow> sortedArr (children st (node_id m))"
      using srt grounded_below [OF _ g] by blast
    then show ?thesis by (rule toTree_ordered [OF d sh cr(1) _ c(2)])
  qed
  then have "orderedForest forest" by (intro orderedForest_all) simp
  then show ?thesis using res lab rs r0 ss by simp
qed

subsection \<open>More fuel changes nothing\<close>

lemma forEach_mono:
  assumes "\<And>x s s'. g x s = Some s' \<Longrightarrow> g' x s = Some s'" and "forEach g xs s = Some s'"
  shows "forEach g' xs s = Some s'"
  using assms(2)
proof (induction xs arbitrary: s)
  case Nil
  then show ?case by simp
next
  case (Cons x xs)
  then obtain s1 where s1: "g x s = Some s1" "forEach g xs s1 = Some s'"
    by (auto split: option.splits)
  then show ?case using assms(1) [OF s1(1)] Cons.IH [OF s1(2)] by simp
qed

lemma sortNodes_Suc: "sortNodes f a st = Some st' \<Longrightarrow> sortNodes (Suc f) a st = Some st'"
proof (induction f arbitrary: a st st')
  case 0
  then show ?case by simp
next
  case (Suc f)
  let ?st1 = "setArr st a (sortArray (getArr st a))"
  have "forEach (\<lambda>nd. sortNodes f (ChildrenArr (node_id nd))) (getArr ?st1 a) ?st1 = Some st'"
    using Suc.prems by (simp add: Let_def)
  then have "forEach (\<lambda>nd. sortNodes (Suc f) (ChildrenArr (node_id nd))) (getArr ?st1 a) ?st1 = Some st'"
    by (rule forEach_mono [rotated]) (rule Suc.IH)
  then show ?case by (simp add: Let_def)
qed

lemma toTree_Suc_mono: "toTree f st p = Some t \<Longrightarrow> toTree (Suc f) st p = Some t"
proof (induction f arbitrary: p t)
  case 0
  then show ?case by simp
next
  case (Suc f)
  from Suc.prems obtain ts where t: "t = Tree p ts"
    and l: "list_all2 (\<lambda>c t'. toTree f st c = Some t') (children st (node_id p)) ts"
    unfolding toTree_Suc by blast
  from l have "list_all2 (\<lambda>c t'. toTree (Suc f) st c = Some t') (children st (node_id p)) ts"
    by (rule list_all2_mono) (rule Suc.IH)
  then show ?case unfolding toTree_Suc [of "Suc f"] using t by blast
qed

lemma sectionsTree_Suc:
  assumes "sectionsTree f rows = Some (Inr forest)"
  shows "sectionsTree (Suc f) rows = Some (Inr forest)"
proof -
  from assms obtain r where b: "buildSectionsTree f rows = Some r"
    by (auto simp add: sectionsTree_def split: option.splits)
  from buildSectionsTree_Some [OF b] obtain st0 st where r: "r = Inr st"
    and s: "sortNodes f RootsArr st0 = Some st" by blast
  have j: "toJSON f st = Some forest"
    using assms b r by (auto simp add: sectionsTree_def)
  from assign_never_throws [of rows] obtain st1 where
    a: "assignAll (indexRows rows) (map snd (indexRows rows)) emptyState = Inr st1" by blast
  have s1: "sortNodes f RootsArr st1 = Some st"
    using b r a by (simp add: buildSectionsTree_def)
  have b': "buildSectionsTree (Suc f) rows = Some (Inr st)"
    using a sortNodes_Suc [OF s1] by (simp add: buildSectionsTree_def del: sortNodes.simps)
  have "list_all2 (\<lambda>c t'. toTree f st c = Some t') (roots st) forest"
    using j by (simp add: toJSON_def those_map_Some)
  then have "list_all2 (\<lambda>c t'. toTree (Suc f) st c = Some t') (roots st) forest"
    by (rule list_all2_mono) (rule toTree_Suc_mono)
  then have "toJSON (Suc f) st = Some forest"
    unfolding toJSON_def those_map_Some .
  then show ?thesis using b' by (simp add: sectionsTree_def)
qed

lemma sectionsTree_mono:
  assumes "sectionsTree f rows = Some (Inr forest)" and "f \<le> f'"
  shows "sectionsTree f' rows = Some (Inr forest)"
  using assms(2,1) by (induction rule: dec_induct) (auto intro: sectionsTree_Suc)

text \<open>The tree of a list of rows: the same for every fuel above the number of rows.\<close>

lemma sectionsTree_result:
  "\<exists>forest. (\<forall>fuel. length rows < fuel \<longrightarrow> sectionsTree fuel rows = Some (Inr forest))
     \<and> map label forest = sortArray (filter (isRoot (map snd (indexRows rows))) (map snd (indexRows rows)))
     \<and> siblingsSorted forest \<and> orderedForest forest
     \<and> set (forestNodes forest) = {m. grounded (map snd (indexRows rows)) m}
     \<and> distinct (forestNodes forest)"
proof -
  from sectionsTree_total [of rows "Suc (length rows)"] obtain forest where
    f: "sectionsTree (Suc (length rows)) rows = Some (Inr forest)"
    and p: "map label forest = sortArray (filter (isRoot (map snd (indexRows rows))) (map snd (indexRows rows)))"
      "siblingsSorted forest" "orderedForest forest"
    by auto
  have "sectionsTree fuel rows = Some (Inr forest)" if "length rows < fuel" for fuel
    using that by (intro sectionsTree_mono [OF f]) simp
  then show ?thesis
    using p sectionsTree_nodes(1,2) [OF f] by blast
qed

subsection \<open>The example table\<close>

lemmas example_defs = sections_def secA_def secB_def secC_def secD_def secE_def secF_def
  wholeForest_def activeForest_def




lemma sections_tree: "sectionsTree 7 sections = Some (Inr wholeForest)"
  by (simp add: sectionsTree_def buildSectionsTree_def indexRows_def example_defs mkNode_def
      assignNode_def has_def emptyState_def sortArray_def sortBy_def compareNodes_def toJSON_def eval_nat_numeral)

lemma sections_index:
  "indexRows sections = [(2, mkNode secB), (1, mkNode secA), (3, mkNode secC), (4, mkNode secD),
     (5, mkNode secE), (6, mkNode secF)]"
  by (simp add: indexRows_def example_defs mkNode_def)

lemma sections_teacher_tree:
  "getSectionsTree 7 ''teacher'' (JStr ''1'') sections = Some (Json wholeForest)"
  by (simp add: getSectionsTree_def orderRows_def sectionsTree_def buildSectionsTree_def
      indexRows_def example_defs mkNode_def assignNode_def has_def emptyState_def sortArray_def
      sortBy_def compareNodes_def toJSON_def eval_nat_numeral)

lemma sections_student_tree:
  "getSectionsTree 7 ''student'' (JStr ''1'') sections = Some (Json activeForest)"
  by (simp add: getSectionsTree_def orderRows_def sectionsTree_def buildSectionsTree_def
      indexRows_def example_defs mkNode_def assignNode_def has_def emptyState_def sortArray_def
      sortBy_def compareNodes_def toJSON_def eval_nat_numeral)

subsection \<open>The claims about the tree\<close>

lemma forest_ids:
  assumes "set (forestNodes forest) = {m. grounded (map snd (indexRows rows)) m}"
    and "distinct (forestNodes forest)"
  shows "distinct (map node_id (forestNodes forest))"
proof (rule distinct_ids_sub [OF index_distinct [of rows] assms(2)])
  show "set (forestNodes forest) \<subseteq> set (map snd (indexRows rows))"
    using assms(1) by (auto dest: grounded_in)
qed

text \<open>
  C1: for every list of rows, \<open>buildSectionsTree\<close> returns, and in the forest it returns no
  identifier occurs twice: every node reachable from the roots appears exactly once, so
  none is listed under two parents and none below itself.
\<close>

theorem buildTree_forest:
  "\<exists>forest. (\<forall>fuel. length rows < fuel \<longrightarrow> sectionsTree fuel rows = Some (Inr forest))
     \<and> distinct (map node_id (forestNodes forest))"
  using sectionsTree_result [of rows] forest_ids [of _ rows] by blast

theorem buildTree_forest_witness:
  "sectionsTree 7 sections = Some (Inr wholeForest)
   \<and> distinct (map node_id (forestNodes wholeForest))"
proof -
  from buildTree_forest [of sections] obtain forest where
    a: "\<forall>fuel. length sections < fuel \<longrightarrow> sectionsTree fuel sections = Some (Inr forest)"
    and d: "distinct (map node_id (forestNodes forest))" by blast
  have "length sections < 7" by (simp add: sections_def)
  then have "sectionsTree 7 sections = Some (Inr forest)" using a by blast
  then have "forest = wholeForest" using sections_tree by simp
  then show ?thesis using d sections_tree by simp
qed



text \<open>
  C6: \<open>buildSectionsTree\<close> throws on no input, and returns; every indexed node whose
  \<open>parentId\<close> is null or is no key of the index is one of the roots of the forest.
\<close>

theorem buildTree_no_error:
  "(\<forall>fuel e. sectionsTree fuel rows \<noteq> Some (Inl e))
   \<and> (\<exists>forest. (\<forall>fuel. length rows < fuel \<longrightarrow> sectionsTree fuel rows = Some (Inr forest))
        \<and> (\<forall>nd \<in> snd ` set (indexRows rows).
             (parentId nd = None \<or> (\<exists>p. parentId nd = Some p \<and> \<not> has (indexRows rows) p))
             \<longrightarrow> nd \<in> set (map label forest)))"
proof -
  let ?ns = "map snd (indexRows rows)"
  from sectionsTree_result [of rows] obtain forest where
    a: "\<forall>fuel. length rows < fuel \<longrightarrow> sectionsTree fuel rows = Some (Inr forest)"
    and l: "map label forest = sortArray (filter (isRoot ?ns) ?ns)" by blast
  have h: "has (indexRows rows) p \<longleftrightarrow> p \<in> node_id ` set ?ns" for p
    using index_nodes(2) [of "indexRows rows" ?ns] indexRows_props [of rows] by blast
  have "nd \<in> set (map label forest)"
    if "nd \<in> snd ` set (indexRows rows)"
      "parentId nd = None \<or> (\<exists>p. parentId nd = Some p \<and> \<not> has (indexRows rows) p)" for nd
  proof -
    have "isRoot ?ns nd" using that(2) h by (auto simp add: isRoot_def)
    then show ?thesis unfolding l using that(1) by (simp add: set_sortArray)
  qed
  then show ?thesis using a sectionsTree_no_error [of _ rows] by blast
qed

theorem buildTree_no_error_witness:
  "sectionsTree 7 sections = Some (Inr wholeForest)
   \<and> mkNode secD \<in> snd ` set (indexRows sections)
   \<and> parentId (mkNode secD) = Some 3 \<and> has (indexRows sections) 3
   \<and> mkNode secA \<in> snd ` set (indexRows sections)
   \<and> parentId (mkNode secA) = None
   \<and> mkNode secA \<in> set (map label wholeForest)"
proof -
  from buildTree_no_error [of sections] obtain forest where
    a: "\<forall>fuel. length sections < fuel \<longrightarrow> sectionsTree fuel sections = Some (Inr forest)"
    and r: "\<forall>nd \<in> snd ` set (indexRows sections).
             (parentId nd = None \<or> (\<exists>p. parentId nd = Some p \<and> \<not> has (indexRows sections) p))
             \<longrightarrow> nd \<in> set (map label forest)" by blast
  have "length sections < 7" by (simp add: sections_def)
  then have "sectionsTree 7 sections = Some (Inr forest)" using a by blast
  then have f: "forest = wholeForest" using sections_tree by simp
  have i: "mkNode secA \<in> snd ` set (indexRows sections)" "mkNode secD \<in> snd ` set (indexRows sections)"
    by (simp_all add: sections_index)
  have p: "parentId (mkNode secA) = None" "parentId (mkNode secD) = Some 3"
    by (simp_all add: mkNode_def secA_def secD_def)
  have h: "has (indexRows sections) 3" by (simp add: sections_index has_def)
  have "mkNode secA \<in> set (map label forest)" using r i(1) p(1) by blast
  then show ?thesis using f i p h sections_tree by simp
qed

lemma same_id:
  assumes "distinct (map node_id ns)" and "a \<in> set ns" and "b \<in> set ns" and "node_id a = node_id b"
  shows "a = b"
proof -
  have "inj_on node_id (set ns)" using assms(1) by (simp add: distinct_map)
  then show ?thesis using assms(2,3,4) by (simp add: inj_on_def)
qed

lemma cycle_not_grounded:
  assumes d: "distinct (map node_id ns)" and sub: "S \<subseteq> set ns"
    and cl: "\<forall>c \<in> S. \<exists>d \<in> S. parentId c = Some (node_id d)"
  shows "grounded ns m \<Longrightarrow> m \<notin> S"
proof (induction rule: grounded.induct)
  case (root nd)
  show ?case
  proof
    assume "nd \<in> S"
    then obtain d where "parentId nd = Some (node_id d)" "d \<in> set ns" using cl sub by blast
    then show False using root.hyps(2) by (simp add: isRoot_def)
  qed
next
  case (child nd p)
  show ?case
  proof
    assume "nd \<in> S"
    then obtain q where q: "q \<in> S" "parentId nd = Some (node_id q)" using cl by blast
    have "node_id q = node_id p" "p \<in> set ns" using child.hyps(1) q(2) by (simp_all add: childOf_def)
    moreover have "q \<in> set ns" using q(1) sub by blast
    moreover have "inj_on node_id (set ns)" using d by (simp add: distinct_map)
    ultimately have "q = p" by (simp add: inj_on_def)
    then show False using q(1) child.IH by simp
  qed
qed

text \<open>
  C10: when some indexed nodes each name another of them as parent, as the nodes of a
  \<open>parentId\<close> cycle do, \<open>buildSectionsTree\<close> still returns, and none of these nodes is in
  the returned forest, neither as a root nor below one.
\<close>

theorem cycle_dropped:
  assumes "set cyc \<subseteq> snd ` set (indexRows rows)"
    and "\<forall>c \<in> set cyc. \<exists>d \<in> set cyc. parentId c = Some (node_id d)"
  shows "\<exists>forest. (\<forall>fuel. length rows < fuel \<longrightarrow> sectionsTree fuel rows = Some (Inr forest))
     \<and> node_id ` set cyc \<inter> node_id ` set (forestNodes forest) = {}"
proof -
  let ?ns = "map snd (indexRows rows)"
  from sectionsTree_result [of rows] obtain forest where
    a: "\<forall>fuel. length rows < fuel \<longrightarrow> sectionsTree fuel rows = Some (Inr forest)"
    and n: "set (forestNodes forest) = {m. grounded ?ns m}" by blast
  have d: "distinct (map node_id ?ns)" by (rule index_distinct)
  have sub: "set cyc \<subseteq> set ?ns" using assms(1) by simp
  have "False" if "c \<in> set cyc" "m \<in> set (forestNodes forest)" "node_id c = node_id m" for c m
  proof -
    have g: "grounded ?ns m" using that(2) n by simp
    have "c \<in> set ?ns" using that(1) sub by blast
    then have "c = m" using grounded_in [OF g] that(3) by (rule same_id [OF d])
    then show False using cycle_not_grounded [OF d sub assms(2) g] that(1) by simp
  qed
  then have "node_id ` set cyc \<inter> node_id ` set (forestNodes forest) = {}" by blast
  then show ?thesis using a by blast
qed

theorem cycle_dropped_witness:
  "set [mkNode secE, mkNode secF] \<subseteq> snd ` set (indexRows sections)
   \<and> parentId (mkNode secE) = Some (node_id (mkNode secF))
   \<and> parentId (mkNode secF) = Some (node_id (mkNode secE))
   \<and> sectionsTree 7 sections = Some (Inr wholeForest)
   \<and> node_id ` set [mkNode secE, mkNode secF] \<inter> node_id ` set (forestNodes wholeForest) = {}"
proof -
  have s: "set [mkNode secE, mkNode secF] \<subseteq> snd ` set (indexRows sections)"
    by (simp add: sections_index)
  have p: "parentId (mkNode secE) = Some (node_id (mkNode secF))"
    "parentId (mkNode secF) = Some (node_id (mkNode secE))"
    by (simp_all add: mkNode_def secE_def secF_def)
  then have c: "\<forall>c \<in> set [mkNode secE, mkNode secF]. \<exists>d \<in> set [mkNode secE, mkNode secF].
      parentId c = Some (node_id d)" by simp
  from cycle_dropped [OF s c] obtain forest where
    a: "\<forall>fuel. length sections < fuel \<longrightarrow> sectionsTree fuel sections = Some (Inr forest)"
    and r: "node_id ` set [mkNode secE, mkNode secF] \<inter> node_id ` set (forestNodes forest) = {}"
    by blast
  have "length sections < 7" by (simp add: sections_def)
  then have "sectionsTree 7 sections = Some (Inr forest)" using a by blast
  then have "forest = wholeForest" using sections_tree by simp
  then show ?thesis using s p r sections_tree by simp
qed

subsection \<open>Leaving out the inactive sections\<close>

lemma orderRows_props:
  "set (orderRows rows) = set rows" "length (orderRows rows) = length rows"
  "distinct (map row_id rows) \<Longrightarrow> distinct (map row_id (orderRows rows))"
  by (simp_all add: orderRows_def distinct_map)

lemma index_nodes_distinct_rows:
  assumes "distinct (map row_id rows)"
  shows "map snd (indexRows rows) = map mkNode rows"
  by (simp add: indexRows_distinct_rows [OF assms] comp_def)

lemma mkNode_fields: "isActive (mkNode r) = is_active r" "parentId (mkNode r) = parent_id r"
  "node_id (mkNode r) = row_id r"
  by (simp_all add: mkNode_def)

lemma grounded_active:
  assumes d: "distinct (map node_id ns)" and s: "set ns' = {n \<in> set ns. isActive n}"
  shows "grounded ns m \<Longrightarrow> isActive m \<Longrightarrow> grounded ns' m"
proof (induction rule: grounded.induct)
  case (root nd)
  have "nd \<in> set ns'" using root.hyps(1) root.prems s by simp
  moreover have "isRoot ns' nd"
    using root.hyps(2) s by (auto simp add: isRoot_def split: option.splits)
  ultimately show ?case by (rule grounded.root)
next
  case (child nd p)
  have nd: "nd \<in> set ns'" "parentId nd = Some (node_id p)" "p \<in> set ns"
    using child.hyps(1) child.prems s by (simp_all add: childOf_def)
  show ?case
  proof (cases "isActive p")
    case True
    then have "(nd, p) \<in> childOf ns'" using nd s by (simp add: childOf_def)
    then show ?thesis using child.IH [OF True] by (rule grounded.child)
  next
    case False
    have inj: "inj_on node_id (set ns)" using d by (simp add: distinct_map)
    have "node_id p \<notin> node_id ` set ns'"
    proof
      assume "node_id p \<in> node_id ` set ns'"
      then obtain q where q: "q \<in> set ns'" "node_id q = node_id p" by auto
      then have "q \<in> set ns" "isActive q" using s by simp_all
      then have "q = p" using inj nd(3) q(2) by (simp add: inj_on_def)
      then show False using False \<open>isActive q\<close> by simp
    qed
    then have "isRoot ns' nd" using nd(2) by (simp add: isRoot_def)
    then show ?thesis using nd(1) by (intro grounded.root)
  qed
qed

lemma getSectionsTree_teacher:
  "getSectionsTree fuel ''teacher'' (JStr ''1'') table =
     (case sectionsTree fuel (orderRows table) of None \<Rightarrow> None
      | Some (Inl e) \<Rightarrow> Some (Status 500 ''Database error'')
      | Some (Inr forest) \<Rightarrow> Some (Json forest))"
  by (simp add: getSectionsTree_def)

lemma getSectionsTree_other:
  assumes "\<not> (role = ''teacher'' \<and> q = JStr ''1'')"
  shows "getSectionsTree fuel role q table =
     (case sectionsTree fuel (orderRows (filter is_active table)) of None \<Rightarrow> None
      | Some (Inl e) \<Rightarrow> Some (Status 500 ''Database error'')
      | Some (Inr forest) \<Rightarrow> Some (Json forest))"
proof (cases "role = ''teacher''")
  case True
  then have "q \<noteq> JStr ''1''" using assms by simp
  then show ?thesis by (simp add: getSectionsTree_def)
next
  case False
  then show ?thesis by (simp add: getSectionsTree_def)
qed

text \<open>
  C2: take a table with one row per identifier and a request that does not include the
  inactive sections. Leaving out the inactive rows removes no active node: every active
  node of the tree of all sections is also in the tree without the inactive ones. And
  every active section whose parent is an inactive section is a root of that tree.
\<close>

theorem filter_keeps_active:
  assumes "distinct (map row_id table)" and "\<not> (role = ''teacher'' \<and> q = JStr ''1'')"
  shows "\<exists>whole act.
     (\<forall>fuel. length table < fuel \<longrightarrow>
        getSectionsTree fuel ''teacher'' (JStr ''1'') table = Some (Json whole) \<and>
        getSectionsTree fuel role q table = Some (Json act))
     \<and> (\<forall>nd \<in> set (forestNodes whole). isActive nd \<longrightarrow> nd \<in> set (forestNodes act))
     \<and> (\<forall>r \<in> set table. \<forall>p \<in> set table.
          is_active r \<and> parent_id r = Some (row_id p) \<and> \<not> is_active p
          \<longrightarrow> mkNode r \<in> set (map label act))"
proof -
  let ?all = "orderRows table"
  let ?sel = "orderRows (filter is_active table)"
  let ?ns = "map snd (indexRows ?all)"
  let ?ns' = "map snd (indexRows ?sel)"
  have da: "distinct (map row_id ?all)" by (rule orderRows_props(3) [OF assms(1)])
  have "distinct (map row_id (filter is_active table))"
    using assms(1) by (rule distinct_map_filter)
  then have ds: "distinct (map row_id ?sel)" by (rule orderRows_props(3))
  have ns: "?ns = map mkNode ?all" by (rule index_nodes_distinct_rows [OF da])
  have ns': "?ns' = map mkNode ?sel" by (rule index_nodes_distinct_rows [OF ds])
  have sa: "set ?ns = mkNode ` set table" unfolding ns by (simp add: orderRows_props(1))
  have ss: "set ?ns' = mkNode ` {r \<in> set table. is_active r}"
    unfolding ns' by (simp add: orderRows_props(1))
  have s: "set ?ns' = {n \<in> set ?ns. isActive n}"
    unfolding sa ss by (auto simp add: mkNode_fields)
  have d: "distinct (map node_id ?ns)" by (rule index_distinct)
  from sectionsTree_result [of ?all] obtain whole where
    w: "\<forall>fuel. length ?all < fuel \<longrightarrow> sectionsTree fuel ?all = Some (Inr whole)"
    and wn: "set (forestNodes whole) = {m. grounded ?ns m}" by blast
  from sectionsTree_result [of ?sel] obtain act where
    a: "\<forall>fuel. length ?sel < fuel \<longrightarrow> sectionsTree fuel ?sel = Some (Inr act)"
    and an: "set (forestNodes act) = {m. grounded ?ns' m}"
    and al: "map label act = sortArray (filter (isRoot ?ns') ?ns')" by blast
  have c1: "getSectionsTree fuel ''teacher'' (JStr ''1'') table = Some (Json whole) \<and>
        getSectionsTree fuel role q table = Some (Json act)" if "length table < fuel" for fuel
  proof -
    have "length ?all < fuel" using that by (simp add: orderRows_props(2))
    moreover have "length ?sel < fuel"
      using le_less_trans [OF length_filter_le that] by (simp add: orderRows_props(2))
    ultimately show ?thesis
      using w a by (simp add: getSectionsTree_teacher getSectionsTree_other [OF assms(2)])
  qed
  have c2: "nd \<in> set (forestNodes act)" if "nd \<in> set (forestNodes whole)" "isActive nd" for nd
    using that wn an grounded_active [OF d s] by simp
  have c3: "mkNode r \<in> set (map label act)"
    if "r \<in> set table" "p \<in> set table" "is_active r" "parent_id r = Some (row_id p)" "\<not> is_active p"
    for r p
  proof -
    have in': "mkNode r \<in> set ?ns'" using that(1,3) ss by simp
    have "row_id p \<notin> node_id ` set ?ns'"
    proof
      assume "row_id p \<in> node_id ` set ?ns'"
      then obtain x where x: "x \<in> set table" "is_active x" "row_id x = row_id p"
        unfolding ss by (auto simp add: mkNode_fields)
      have "inj_on row_id (set table)" using assms(1) by (simp add: distinct_map)
      then have "x = p" using x(1,3) that(2) by (simp add: inj_on_def)
      then show False using x(2) that(5) by simp
    qed
    then have "isRoot ?ns' (mkNode r)" using that(4) by (simp add: isRoot_def mkNode_fields)
    then show ?thesis unfolding al using in' by (simp add: set_sortArray)
  qed
  show ?thesis using c1 c2 c3 by blast
qed

theorem filter_keeps_active_witness:
  "distinct (map row_id sections)
   \<and> getSectionsTree 7 ''teacher'' (JStr ''1'') sections = Some (Json wholeForest)
   \<and> getSectionsTree 7 ''student'' (JStr ''1'') sections = Some (Json activeForest)
   \<and> mkNode secB \<in> set (forestNodes wholeForest) \<and> isActive (mkNode secB)
   \<and> mkNode secB \<in> set (forestNodes activeForest)
   \<and> secD \<in> set sections \<and> secC \<in> set sections
   \<and> is_active secD \<and> parent_id secD = Some (row_id secC) \<and> \<not> is_active secC
   \<and> mkNode secD \<in> set (map label activeForest)"
proof -
  have d: "distinct (map row_id sections)" by (simp add: example_defs)
  have n: "\<not> (''student'' = ''teacher'' \<and> JStr ''1'' = JStr ''1'')" by simp
  from filter_keeps_active [OF d n] obtain whole act where
    a: "\<forall>fuel. length sections < fuel \<longrightarrow>
        getSectionsTree fuel ''teacher'' (JStr ''1'') sections = Some (Json whole) \<and>
        getSectionsTree fuel ''student'' (JStr ''1'') sections = Some (Json act)"
    and k: "\<forall>nd \<in> set (forestNodes whole). isActive nd \<longrightarrow> nd \<in> set (forestNodes act)"
    and r: "\<forall>r \<in> set sections. \<forall>p \<in> set sections.
          is_active r \<and> parent_id r = Some (row_id p) \<and> \<not> is_active p
          \<longrightarrow> mkNode r \<in> set (map label act)" by blast
  have "length sections < 7" by (simp add: sections_def)
  then have "getSectionsTree 7 ''teacher'' (JStr ''1'') sections = Some (Json whole)"
    "getSectionsTree 7 ''student'' (JStr ''1'') sections = Some (Json act)" using a by blast+
  then have e: "whole = wholeForest" "act = activeForest"
    using sections_teacher_tree sections_student_tree by simp_all
  have b: "mkNode secB \<in> set (forestNodes wholeForest)" "isActive (mkNode secB)"
    by (simp_all add: wholeForest_def forestNodes_def mkNode_def secB_def)
  have m: "secD \<in> set sections" "secC \<in> set sections" by (simp_all add: sections_def)
  have f: "is_active secD" "parent_id secD = Some (row_id secC)" "\<not> is_active secC"
    by (simp_all add: secC_def secD_def)
  have "mkNode secB \<in> set (forestNodes activeForest)" using k b e by blast
  moreover have "mkNode secD \<in> set (map label activeForest)" using r m f e by blast
  ultimately show ?thesis
    using d sections_teacher_tree sections_student_tree b m f by blast
qed

subsection \<open>What a learner sees\<close>

lemma sectionsTree_from_rows:
  assumes "sectionsTree fuel rows = Some (Inr forest)"
  shows "set (forestNodes forest) \<subseteq> mkNode ` set rows"
proof -
  have "set (forestNodes forest) \<subseteq> set (map snd (indexRows rows))"
    using sectionsTree_nodes(1) [OF assms] by (auto dest: grounded_in)
  then show ?thesis using indexRows_props [of rows] by auto
qed

lemma getSections_other:
  assumes "\<not> (role = ''teacher'' \<and> q = JStr ''1'')"
  shows "getSections role q pid table =
     (if parseNullableParentId pid = PUndefined \<and> pid \<noteq> JUndefined
      then Status 400 ''Invalid parent_id''
      else Json (map mkNode (orderRows (filter
             (\<lambda>r. is_active r \<and>
                  (case parseNullableParentId pid of
                     PId p \<Rightarrow> parent_id r = Some p
                   | _ \<Rightarrow> parent_id r = None)) table))))"
proof (cases "role = ''teacher''")
  case True
  then have "q \<noteq> JStr ''1''" using assms by simp
  then show ?thesis by (simp add: getSections_def Let_def)
next
  case False
  then show ?thesis by (simp add: getSections_def Let_def)
qed

text \<open>
  C8: unless a teacher asks with \<open>include_inactive=1\<close>, the tree and the list of children
  hold active sections only, and two tables with the same active rows give the same
  responses. For a teacher who asks, the rows are selected without looking at
  \<open>is_active\<close>.
\<close>

theorem inactive_only_for_teacher:
  "(\<not> (role = ''teacher'' \<and> q = JStr ''1'') \<longrightarrow>
      (filter is_active table = filter is_active table' \<longrightarrow>
         getSectionsTree fuel role q table = getSectionsTree fuel role q table' \<and>
         getSections role q pid table = getSections role q pid table')
      \<and> (\<forall>forest. getSectionsTree fuel role q table = Some (Json forest) \<longrightarrow>
            (\<forall>nd \<in> set (forestNodes forest). isActive nd))
      \<and> (\<forall>nodes. getSections role q pid table = Json nodes \<longrightarrow> (\<forall>nd \<in> set nodes. isActive nd)))
   \<and> getSectionsTree fuel ''teacher'' (JStr ''1'') table =
       (case sectionsTree fuel (orderRows table) of None \<Rightarrow> None
        | Some (Inl e) \<Rightarrow> Some (Status 500 ''Database error'')
        | Some (Inr forest) \<Rightarrow> Some (Json forest))
   \<and> getSections ''teacher'' (JStr ''1'') JNull table =
       Json (map mkNode (orderRows (filter (\<lambda>r. parent_id r = None) table)))"
proof -
  have a: "getSectionsTree fuel role q table = getSectionsTree fuel role q table'"
    if "\<not> (role = ''teacher'' \<and> q = JStr ''1'')" "filter is_active table = filter is_active table'"
    by (simp add: getSectionsTree_other [OF that(1)] that(2))
  have b: "isActive nd"
    if n: "\<not> (role = ''teacher'' \<and> q = JStr ''1'')"
      and g: "getSectionsTree fuel role q table = Some (Json forest)"
      and m: "nd \<in> set (forestNodes forest)" for forest nd
  proof -
    have "sectionsTree fuel (orderRows (filter is_active table)) = Some (Inr forest)"
      using g unfolding getSectionsTree_other [OF n]
      by (auto split: option.splits sum.splits)
    from sectionsTree_from_rows [OF this] m
    obtain r where "nd = mkNode r" "r \<in> set (orderRows (filter is_active table))" by blast
    then show ?thesis by (simp add: orderRows_props(1) mkNode_fields)
  qed
  have c: "getSections role q pid table = getSections role q pid table'"
    if "\<not> (role = ''teacher'' \<and> q = JStr ''1'')" "filter is_active table = filter is_active table'"
  proof -
    have f: "filter (\<lambda>r. is_active r \<and> P r) t = filter P (filter is_active t)"
      for P and t :: "row list"
      by (simp add: conj_commute)
    have e: "filter (\<lambda>r. is_active r \<and> P r) table = filter (\<lambda>r. is_active r \<and> P r) table'" for P
      unfolding f that(2) ..
    show ?thesis by (simp add: getSections_other [OF that(1)] e)
  qed
  have d: "isActive nd"
    if n: "\<not> (role = ''teacher'' \<and> q = JStr ''1'')"
      and g: "getSections role q pid table = Json nodes" and m: "nd \<in> set nodes" for nodes nd
  proof -
    from g m obtain r where "nd = mkNode r" "is_active r"
      unfolding getSections_other [OF n]
      by (auto simp add: orderRows_props(1) split: if_splits)
    then show ?thesis by (simp add: mkNode_fields)
  qed
  have e: "getSectionsTree fuel ''teacher'' (JStr ''1'') table =
       (case sectionsTree fuel (orderRows table) of None \<Rightarrow> None
        | Some (Inl e) \<Rightarrow> Some (Status 500 ''Database error'')
        | Some (Inr forest) \<Rightarrow> Some (Json forest))"
    by (rule getSectionsTree_teacher)
  have f: "getSections ''teacher'' (JStr ''1'') JNull table =
       Json (map mkNode (orderRows (filter (\<lambda>r. parent_id r = None) table)))"
    by (simp add: getSections_def Let_def)
  show ?thesis using a b c d e f by blast
qed

theorem inactive_only_for_teacher_witness:
  "\<not> (''student'' = ''teacher'' \<and> JStr ''1'' = JStr ''1'')
   \<and> getSectionsTree 7 ''student'' (JStr ''1'') sections = Some (Json activeForest)
   \<and> getSectionsTree 7 ''student'' (JStr ''1'') (filter is_active sections) = Some (Json activeForest)
   \<and> list_all isActive (forestNodes activeForest)
   \<and> getSections ''student'' (JStr ''1'') JNull sections = Json [mkNode secA]
   \<and> getSections ''student'' (JStr ''1'') JNull (filter is_active sections) = Json [mkNode secA]
   \<and> list_all isActive [mkNode secA]
   \<and> getSections ''teacher'' (JStr ''1'') JNull sections = Json [mkNode secA, mkNode secC]"
proof -
  note t = inactive_only_for_teacher [of "''student''" "JStr ''1''" sections "filter is_active sections" 7 JNull]
  have n: "\<not> (''student'' = ''teacher'' \<and> JStr ''1'' = JStr ''1'')" by simp
  have l: "getSections ''student'' (JStr ''1'') JNull sections = Json [mkNode secA]"
    by (simp add: getSections_def Let_def orderRows_def example_defs)
  have k: "getSections ''teacher'' (JStr ''1'') JNull sections = Json [mkNode secA, mkNode secC]"
    by (simp add: getSections_def Let_def orderRows_def example_defs)
  have "getSectionsTree 7 ''student'' (JStr ''1'') (filter is_active sections) = Some (Json activeForest)"
    using t n sections_student_tree by simp
  moreover have "\<forall>nd \<in> set (forestNodes activeForest). isActive nd"
    using t n sections_student_tree by blast
  moreover have "getSections ''student'' (JStr ''1'') JNull (filter is_active sections) = Json [mkNode secA]"
    using t n l by simp
  moreover have "\<forall>nd \<in> set [mkNode secA]. isActive nd"
    using t n l by blast
  ultimately show ?thesis
    using n sections_student_tree l k unfolding list_all_iff by blast
qed

end
